theory Spec2Isabelle
  imports Main "HOL-Library.AList" "HOL-Library.Char_ord" "HOL-Library.List_Lexorder"
    "HOL-Library.Multiset"
begin

section \<open>The Weisfeiler-Lehman refinement engine of src/services/wlAlgorithm.ts\<close>

text \<open>
  The embedding follows \<^verbatim>\<open>runWLAlgorithm\<close> line by line. Conventions:
  \<^item> a JavaScript \<^verbatim>\<open>Map\<close> or \<^verbatim>\<open>Record\<close> is an association list in insertion order
    (\<open>AList.update\<close> overwrites in place and appends a new key, as \<^verbatim>\<open>Map.set\<close> and
    an assignment to a property do); \<open>map_of\<close> is \<^verbatim>\<open>get\<close>, with \<open>None\<close> for
    \<^verbatim>\<open>undefined\<close>;
  \<^item> a \<^verbatim>\<open>Set\<close> is a duplicate-free list in insertion order;
  \<^item> \<^verbatim>\<open>number\<close> is \<open>int\<close> for \<^verbatim>\<open>originalLabel\<close> and \<^verbatim>\<open>maxK\<close>, \<open>nat\<close> for the label
    counter and the step index (fractions, NaN and the 2^53 limit are not modelled);
  \<^item> strings are \<open>char list\<close>, ordered lexicographically by character code, which is
    the order of \<^verbatim>\<open>Array.prototype.sort()\<close> without a comparator on ASCII strings;
  \<^item> the \<^verbatim>\<open>color\<close> fields, \<^verbatim>\<open>getColorForLabel(label)\<close>, are a floating-point function of
    the label alone and are left out of the records.
\<close>

subsection \<open>types.ts\<close>

record Node =
  node_id :: string
  originalLabel :: int

record Link =
  source :: string
  target :: string

record GraphData =
  nodes :: "Node list"
  links :: "Link list"

record ExpandedSignature =
  self :: string
  neighbors :: "string list"

record WLStepNodeData =
  nd_id :: string
  nd_label :: string
  nd_originalLabel :: int
  nd_neighbors :: "string list"
  nd_signature :: string
  nd_expandedSignature :: ExpandedSignature

record HashMapping =
  hm_signature :: string
  hm_label :: string

record WLStep =
  step_k :: nat
  nodeDataA :: "(string \<times> WLStepNodeData) list"
  nodeDataB :: "(string \<times> WLStepNodeData) list"
  labelCountsA :: "(string \<times> nat) list"
  labelCountsB :: "(string \<times> nat) list"
  uniqueLabels :: "string list"
  mappings :: "HashMapping list"
  isIsomorphicCandidate :: bool

record SimulationResult =
  steps :: "WLStep list"
  res_maxK :: int

subsection \<open>Numbers and strings\<close>

definition digit_char :: "nat \<Rightarrow> char" where
  "digit_char d = ''0123456789'' ! d"

text \<open>\<^verbatim>\<open>Number.prototype.toString\<close> on a non-negative integer and on an integer.\<close>

fun toString_nat :: "nat \<Rightarrow> string" where
  "toString_nat n =
     (if n < 10 then [digit_char n] else toString_nat (n div 10) @ [digit_char (n mod 10)])"

declare toString_nat.simps [simp del]

definition toString_int :: "int \<Rightarrow> string" where
  "toString_int i = (if i < 0 then CHR ''-'' # toString_nat (nat (- i)) else toString_nat (nat i))"

definition is_digit :: "char \<Rightarrow> bool" where
  "is_digit c = (c \<in> set ''0123456789'')"

definition digit_val :: "char \<Rightarrow> nat" where
  "digit_val c = of_char c - 48"

text \<open>
  \<^verbatim>\<open>parseInt\<close> on a string that starts with decimal digits: the value of the longest
  digit prefix. (JavaScript also skips leading white space and reads a sign, and yields
  NaN when no digit follows; every label the engine parses is a \<open>toString_nat\<close>, on
  which \<open>parseInt\<close> is the inverse, see \<open>parseInt_toString_nat\<close>.)
\<close>

definition parseInt :: "string \<Rightarrow> nat" where
  "parseInt s = foldl (\<lambda>n c. 10 * n + digit_val c) 0 (takeWhile is_digit s)"

text \<open>\<^verbatim>\<open>Array.prototype.join\<close>.\<close>

fun join :: "string \<Rightarrow> string list \<Rightarrow> string" where
  "join sep [] = []"
| "join sep [x] = x"
| "join sep (x # y # ys) = x @ sep @ join sep (y # ys)"

subsection \<open>Maps, sets and records of JavaScript\<close>

text \<open>
  The lookups the source writes \<^verbatim>\<open>m.get(k)!\<close>: the stored string. On a miss JavaScript
  yields \<^verbatim>\<open>undefined\<close>, which a template literal prints as the text \<^verbatim>\<open>undefined\<close>; the
  model returns that text. In a run these lookups always hit (\<open>prev_label_canonical\<close>,
  \<open>step_labels_canonical\<close>, \<open>initial_values\<close>).
\<close>

definition getStr :: "('k \<times> string) list \<Rightarrow> 'k \<Rightarrow> string" where
  "getStr m k = (case map_of m k of Some v \<Rightarrow> v | None \<Rightarrow> ''undefined'')"

definition has :: "('k \<times> 'v) list \<Rightarrow> 'k \<Rightarrow> bool" where
  "has m k = (map_of m k \<noteq> None)"

definition setAdd :: "'a \<Rightarrow> 'a list \<Rightarrow> 'a list" where
  "setAdd x s = (if x \<in> set s then s else s @ [x])"

definition newSet :: "'a list \<Rightarrow> 'a list" where
  "newSet xs = fold setAdd xs []"

text \<open>
  \<^verbatim>\<open>new Set(xs)\<close> keeps the first occurrence of every element, in order.
  \<^verbatim>\<open>Object.keys\<close> of a record whose keys are label ids: JavaScript enumerates
  integer-like keys in ascending numeric order, whatever the order of insertion.
\<close>

definition Object_keys :: "(string \<times> nat) list \<Rightarrow> string list" where
  "Object_keys c = sort_key parseInt (map fst c)"

subsection \<open>getAdjacencyList\<close>

definition push :: "(string \<times> string list) list \<Rightarrow> string \<Rightarrow> string \<Rightarrow> (string \<times> string list) list" where
  "push adj k v = (case map_of adj k of None \<Rightarrow> adj | Some xs \<Rightarrow> AList.update k (xs @ [v]) adj)"

definition addLink :: "Link \<Rightarrow> (string \<times> string list) list \<Rightarrow> (string \<times> string list) list" where
  "addLink l adj =
     (if has adj (source l) \<and> has adj (target l)
      then push (push adj (source l) (target l)) (target l) (source l)
      else adj)"

definition getAdjacencyList :: "Node list \<Rightarrow> Link list \<Rightarrow> (string \<times> string list) list" where
  "getAdjacencyList ns ls = fold addLink ls (fold (\<lambda>n adj. AList.update (node_id n) [] adj) ns [])"

subsection \<open>areCountsEqual\<close>

definition areCountsEqual :: "(string \<times> nat) list \<Rightarrow> (string \<times> nat) list \<Rightarrow> bool" where
  "areCountsEqual c1 c2 =
     (let keys1 = Object_keys c1; keys2 = Object_keys c2 in
      if length keys1 \<noteq> length keys2 then False
      else list_all (\<lambda>k. \<not> (map_of c1 k \<noteq> map_of c2 k)) keys1)"

subsection \<open>runWLAlgorithm: the initialisation phase\<close>

text \<open>
  \<^verbatim>\<open>sortedInitLabels.forEach(val => { globalLabelCounter++; initLabelMap.set(val, ...) })\<close>:
  the state is the pair of the global counter and the map.
\<close>

definition mintInit :: "int \<Rightarrow> nat \<times> (int \<times> string) list \<Rightarrow> nat \<times> (int \<times> string) list" where
  "mintInit val st = (Suc (fst st), AList.update val (toString_nat (Suc (fst st))) (snd st))"

definition applyInitialLabels :: "(int \<times> string) list \<Rightarrow> Node list \<Rightarrow> (string \<times> string) list" where
  "applyInitialLabels initLabelMap ns =
     fold (\<lambda>n m. AList.update (node_id n) (getStr initLabelMap (originalLabel n)) m) ns []"

subsection \<open>processStep\<close>

datatype GraphTag = GraphA | GraphB

record NodeSig =
  sig_graph :: GraphTag
  sig_id :: string
  sig_signature :: string
  sig_expanded :: ExpandedSignature

text \<open>What \<^verbatim>\<open>processStep\<close> reads from the enclosing call and never writes.\<close>

record Env =
  graphA :: GraphData
  graphB :: GraphData
  adjA :: "(string \<times> string list) list"
  adjB :: "(string \<times> string list) list"
  sortedInitLabels :: "int list"
  initLabelMap :: "(int \<times> string) list"

text \<open>The body of the \<^verbatim>\<open>forEach\<close> of \<^verbatim>\<open>generateSig\<close>, for one node.\<close>

definition nodeSig ::
  "nat \<Rightarrow> (string \<times> string list) list \<Rightarrow> (string \<times> string) list \<Rightarrow> GraphTag \<Rightarrow> Node \<Rightarrow> NodeSig" where
  "nodeSig k adj prevLabs graphType node =
     (if k = 0 then
        \<lparr>sig_graph = graphType, sig_id = node_id node,
         sig_signature = ''['' @ toString_int (originalLabel node) @ '']'',
         sig_expanded = \<lparr>self = toString_int (originalLabel node), neighbors = []\<rparr>\<rparr>
      else
        (let myPrevLabel = getStr prevLabs (node_id node);
             neighborIds = (case map_of adj (node_id node) of Some xs \<Rightarrow> xs | None \<Rightarrow> []);
             neighborLabels = sort_key parseInt (map (getStr prevLabs) neighborIds);
             signature = ''('' @ myPrevLabel @ '',['' @ join '','' neighborLabels @ ''])''
         in \<lparr>sig_graph = graphType, sig_id = node_id node, sig_signature = signature,
             sig_expanded = \<lparr>self = myPrevLabel, neighbors = neighborLabels\<rparr>\<rparr>))"

definition generateSig ::
  "nat \<Rightarrow> Node list \<Rightarrow> (string \<times> string list) list \<Rightarrow> (string \<times> string) list \<Rightarrow> GraphTag
     \<Rightarrow> NodeSig list \<Rightarrow> NodeSig list" where
  "generateSig k gNodes adj prevLabs graphType allSigs =
     fold (\<lambda>node sigs. sigs @ [nodeSig k adj prevLabs graphType node]) gNodes allSigs"

text \<open>
  The state of the \<^verbatim>\<open>uniqueSignatures.forEach\<close> loop and of the step-0 loop over
  \<^verbatim>\<open>sortedInitLabels\<close>: the global counter, \<^verbatim>\<open>stepMapping\<close> and \<^verbatim>\<open>mappingList\<close>.
\<close>

record MintState =
  ms_counter :: nat
  ms_stepMapping :: "(string \<times> string) list"
  ms_mappingList :: "HashMapping list"

definition mintSig :: "nat \<Rightarrow> string \<Rightarrow> MintState \<Rightarrow> MintState" where
  "mintSig k sig st =
     (if k = 0 then st
      else (let c = Suc (ms_counter st); newId = toString_nat c in
            \<lparr>ms_counter = c,
             ms_stepMapping = AList.update sig newId (ms_stepMapping st),
             ms_mappingList = ms_mappingList st @ [\<lparr>hm_signature = sig, hm_label = newId\<rparr>]\<rparr>))"

definition initMapping :: "(int \<times> string) list \<Rightarrow> int \<Rightarrow> MintState \<Rightarrow> MintState" where
  "initMapping ilm val st =
     (let lid = getStr ilm val in
      \<lparr>ms_counter = ms_counter st,
       ms_stepMapping = AList.update (''['' @ toString_int val @ '']'') lid (ms_stepMapping st),
       ms_mappingList = ms_mappingList st
          @ [\<lparr>hm_signature = ''Initial: '' @ toString_int val, hm_label = lid\<rparr>]\<rparr>)"

text \<open>\<^verbatim>\<open>counts[newLabel] = (counts[newLabel] || 0) + 1\<close>.\<close>

definition bump :: "(string \<times> nat) list \<Rightarrow> string \<Rightarrow> (string \<times> nat) list" where
  "bump c l = AList.update l ((case map_of c l of None \<Rightarrow> 0 | Some n \<Rightarrow> n) + 1) c"

text \<open>The state of the \<^verbatim>\<open>allSigs.forEach\<close> loop that builds the result data.\<close>

record BuildState =
  nextLabsA :: "(string \<times> string) list"
  nextLabsB :: "(string \<times> string) list"
  bs_nodeDataA :: "(string \<times> WLStepNodeData) list"
  bs_nodeDataB :: "(string \<times> WLStepNodeData) list"
  countsA :: "(string \<times> nat) list"
  countsB :: "(string \<times> nat) list"

definition applyItem :: "(string \<times> string) list \<Rightarrow> NodeSig \<Rightarrow> BuildState \<Rightarrow> BuildState" where
  "applyItem stepMapping item st =
     (let newLabel = getStr stepMapping (sig_signature item);
          nodeData = \<lparr>nd_id = sig_id item, nd_label = newLabel, nd_originalLabel = 0,
                      nd_neighbors = [], nd_signature = sig_signature item,
                      nd_expandedSignature = sig_expanded item\<rparr>
      in if sig_graph item = GraphA then
           st\<lparr>nextLabsA := AList.update (sig_id item) newLabel (nextLabsA st),
              countsA := bump (countsA st) newLabel,
              bs_nodeDataA := AList.update (sig_id item) nodeData (bs_nodeDataA st)\<rparr>
         else
           st\<lparr>nextLabsB := AList.update (sig_id item) newLabel (nextLabsB st),
              countsB := bump (countsB st) newLabel,
              bs_nodeDataB := AList.update (sig_id item) nodeData (bs_nodeDataB st)\<rparr>)"

definition emptyBuild :: BuildState where
  "emptyBuild = \<lparr>nextLabsA = [], nextLabsB = [], bs_nodeDataA = [], bs_nodeDataB = [],
                 countsA = [], countsB = []\<rparr>"

text \<open>
  The value \<^verbatim>\<open>processStep\<close> returns, with the global counter it leaves behind. Its
  parameters \<^verbatim>\<open>labelsA\<close> and \<^verbatim>\<open>labelsB\<close> are never read and are not modelled.
\<close>

record StepResult =
  step :: WLStep
  nextLabelsA :: "(string \<times> string) list"
  nextLabelsB :: "(string \<times> string) list"
  globalLabelCounter :: nat

definition processStep ::
  "Env \<Rightarrow> nat \<Rightarrow> nat \<Rightarrow> (string \<times> string) list \<Rightarrow> (string \<times> string) list \<Rightarrow> StepResult" where
  "processStep env counter k prevLabelsA prevLabelsB =
     (let allSigs = generateSig k (nodes (graphB env)) (adjB env) prevLabelsB GraphB
                      (generateSig k (nodes (graphA env)) (adjA env) prevLabelsA GraphA []);
          uniqueSignatures = sort (newSet (map sig_signature allSigs));
          minted = fold (mintSig k) uniqueSignatures
                     \<lparr>ms_counter = counter, ms_stepMapping = [], ms_mappingList = []\<rparr>;
          mapped = (if k = 0 then fold (initMapping (initLabelMap env)) (sortedInitLabels env) minted
                    else minted);
          built = fold (applyItem (ms_stepMapping mapped)) allSigs emptyBuild;
          uniqueLabs = sort_key parseInt
                         (newSet (Object_keys (countsA built) @ Object_keys (countsB built)))
      in \<lparr>step = \<lparr>step_k = k,
                   nodeDataA = bs_nodeDataA built, nodeDataB = bs_nodeDataB built,
                   labelCountsA = countsA built, labelCountsB = countsB built,
                   uniqueLabels = uniqueLabs,
                   mappings = ms_mappingList mapped,
                   isIsomorphicCandidate = areCountsEqual (countsA built) (countsB built)\<rparr>,
          nextLabelsA = nextLabsA built, nextLabelsB = nextLabsB built,
          globalLabelCounter = ms_counter mapped\<rparr>)"

subsection \<open>runWLAlgorithm: the loop and the whole call\<close>

text \<open>
  \<^verbatim>\<open>for (let k = 1; k <= maxK; k++)\<close>, from the state at the head of an iteration; the
  value is the list of the steps it pushes.
\<close>

function wlLoop ::
  "Env \<Rightarrow> int \<Rightarrow> nat \<Rightarrow> (string \<times> string) list \<Rightarrow> (string \<times> string) list \<Rightarrow> nat \<Rightarrow> WLStep list" where
  "wlLoop env maxK k currentLabelsA currentLabelsB counter =
     (if int k \<le> maxK then
        (let prevA = currentLabelsA; prevB = currentLabelsB;
             res = processStep env counter k prevA prevB
         in step res # wlLoop env maxK (Suc k) (nextLabelsA res) (nextLabelsB res)
                          (globalLabelCounter res))
      else [])"
  by pat_completeness auto
termination
  by (relation "measure (\<lambda>(env, maxK, k, a, b, c). nat (maxK + 1 - int k))") auto

declare wlLoop.simps [simp del]

definition runWLAlgorithm :: "GraphData \<Rightarrow> GraphData \<Rightarrow> int \<Rightarrow> SimulationResult" where
  "runWLAlgorithm gA gB maxK =
     (let adjA0 = getAdjacencyList (nodes gA) (links gA);
          adjB0 = getAdjacencyList (nodes gB) (links gB);
          allInitialValues = fold (\<lambda>n s. setAdd (originalLabel n) s) (nodes gB)
                               (fold (\<lambda>n s. setAdd (originalLabel n) s) (nodes gA) []);
          sortedInit = sort allInitialValues;
          inited = fold mintInit sortedInit (0, []);
          env = \<lparr>graphA = gA, graphB = gB, adjA = adjA0, adjB = adjB0,
                 sortedInitLabels = sortedInit, initLabelMap = snd inited\<rparr>;
          currentLabelsA = applyInitialLabels (snd inited) (nodes gA);
          currentLabelsB = applyInitialLabels (snd inited) (nodes gB);
          result0 = processStep env (fst inited) 0 currentLabelsA currentLabelsB
      in \<lparr>steps = step result0
                     # wlLoop env maxK 1 currentLabelsA currentLabelsB (globalLabelCounter result0),
          res_maxK = maxK\<rparr>)"

subsection \<open>The CYCLES scenario of the scenario generators\<close>

text \<open>\<^verbatim>\<open>createCycle(n, prefix, label = 1)\<close>.\<close>

definition createCycle :: "nat \<Rightarrow> string \<Rightarrow> int \<Rightarrow> GraphData" where
  "createCycle n prefix lab =
     \<lparr>nodes = map (\<lambda>i. \<lparr>node_id = prefix @ toString_nat i, originalLabel = lab\<rparr>) [0..<n],
      links = map (\<lambda>i. \<lparr>source = prefix @ toString_nat i,
                         target = prefix @ toString_nat ((i + 1) mod n)\<rparr>) [0..<n]\<rparr>"

definition cyclesA :: GraphData where
  "cyclesA = createCycle 6 ''A_C6_'' 1"

definition cyclesB :: GraphData where
  "cyclesB = (let gB1 = createCycle 3 ''B_C3a_'' 1; gB2 = createCycle 3 ''B_C3b_'' 1 in
              \<lparr>nodes = nodes gB1 @ nodes gB2, links = links gB1 @ links gB2\<rparr>)"

text \<open>\<^verbatim>\<open>MAX_K\<close> of the constants file.\<close>

definition MAX_K :: int where
  "MAX_K = 5"

section \<open>Vocabulary of the properties\<close>

subsection \<open>The outcome of a call\<close>

text \<open>
  The two failures the specification names. The source has no \<^verbatim>\<open>throw\<close> and calls
  nothing that throws on values of its parameter types, so a call always returns:
  the outcome is \<open>Inr\<close> of the steps.
\<close>

datatype Failure = InvalidGraphReference | InvalidHorizon

definition refine :: "GraphData \<Rightarrow> GraphData \<Rightarrow> int \<Rightarrow> Failure + WLStep list" where
  "refine gA gB maxK = Inr (steps (runWLAlgorithm gA gB maxK))"

subsection \<open>The run unrolled\<close>

text \<open>
  Names for the intermediate values of \<^verbatim>\<open>runWLAlgorithm\<close>, used to state the
  properties: the sorted initial labels, the state after the initialisation phase, the
  environment of \<^verbatim>\<open>processStep\<close>, the loop state (labels of both graphs and the global
  counter) at the head of each iteration, and the step record pushed for each \<open>k\<close>.
\<close>

definition sortedInitOf :: "GraphData \<Rightarrow> GraphData \<Rightarrow> int list" where
  "sortedInitOf gA gB =
     sort (fold (\<lambda>n s. setAdd (originalLabel n) s) (nodes gB)
             (fold (\<lambda>n s. setAdd (originalLabel n) s) (nodes gA) []))"

definition initedOf :: "GraphData \<Rightarrow> GraphData \<Rightarrow> nat \<times> (int \<times> string) list" where
  "initedOf gA gB = fold mintInit (sortedInitOf gA gB) (0, [])"

definition envOf :: "GraphData \<Rightarrow> GraphData \<Rightarrow> Env" where
  "envOf gA gB =
     \<lparr>graphA = gA, graphB = gB,
      adjA = getAdjacencyList (nodes gA) (links gA), adjB = getAdjacencyList (nodes gB) (links gB),
      sortedInitLabels = sortedInitOf gA gB, initLabelMap = snd (initedOf gA gB)\<rparr>"

type_synonym LoopState = "(string \<times> string) list \<times> (string \<times> string) list \<times> nat"

definition state0 :: "GraphData \<Rightarrow> GraphData \<Rightarrow> LoopState" where
  "state0 gA gB =
     (applyInitialLabels (snd (initedOf gA gB)) (nodes gA),
      applyInitialLabels (snd (initedOf gA gB)) (nodes gB),
      fst (initedOf gA gB))"

definition stepRes :: "Env \<Rightarrow> nat \<Rightarrow> LoopState \<Rightarrow> StepResult" where
  "stepRes env k s = processStep env (snd (snd s)) k (fst s) (fst (snd s))"

definition nextState :: "Env \<Rightarrow> nat \<Rightarrow> LoopState \<Rightarrow> LoopState" where
  "nextState env k s =
     (nextLabelsA (stepRes env k s), nextLabelsB (stepRes env k s), globalLabelCounter (stepRes env k s))"

fun stateAt :: "Env \<Rightarrow> LoopState \<Rightarrow> nat \<Rightarrow> LoopState" where
  "stateAt env s0 0 = s0"
| "stateAt env s0 (Suc n) = nextState env (Suc n) (stateAt env s0 n)"

definition stepAt :: "GraphData \<Rightarrow> GraphData \<Rightarrow> nat \<Rightarrow> WLStep" where
  "stepAt gA gB k =
     step (stepRes (envOf gA gB) k (stateAt (envOf gA gB) (state0 gA gB) (k - 1)))"

text \<open>
  The components of the loop state after \<open>n\<close> iterations: the labels that step
  \<open>n + 1\<close> reads as previous labels, and the global counter it starts from.
\<close>

definition counterAt :: "GraphData \<Rightarrow> GraphData \<Rightarrow> nat \<Rightarrow> nat" where
  "counterAt gA gB n = snd (snd (stateAt (envOf gA gB) (state0 gA gB) n))"

definition prevA :: "GraphData \<Rightarrow> GraphData \<Rightarrow> nat \<Rightarrow> (string \<times> string) list" where
  "prevA gA gB n = fst (stateAt (envOf gA gB) (state0 gA gB) n)"

definition prevB :: "GraphData \<Rightarrow> GraphData \<Rightarrow> nat \<Rightarrow> (string \<times> string) list" where
  "prevB gA gB n = fst (snd (stateAt (envOf gA gB) (state0 gA gB) n))"

subsection \<open>The parts of a step\<close>

text \<open>
  Names for the intermediate values of \<^verbatim>\<open>processStep\<close>: the histogram loop on a list of
  labels, the node record of an item, the items of each graph, the sorted distinct
  signatures and the state after the two mapping loops.
\<close>

definition histogram :: "string list \<Rightarrow> (string \<times> nat) list" where
  "histogram ls = fold (\<lambda>l c. bump c l) ls []"

definition nodeDataOf :: "(string \<times> string) list \<Rightarrow> NodeSig \<Rightarrow> WLStepNodeData" where
  "nodeDataOf stepMapping item =
     \<lparr>nd_id = sig_id item, nd_label = getStr stepMapping (sig_signature item), nd_originalLabel = 0,
      nd_neighbors = [], nd_signature = sig_signature item,
      nd_expandedSignature = sig_expanded item\<rparr>"

definition sigsA :: "Env \<Rightarrow> nat \<Rightarrow> (string \<times> string) list \<Rightarrow> NodeSig list" where
  "sigsA env k pA = map (nodeSig k (adjA env) pA GraphA) (nodes (graphA env))"

definition sigsB :: "Env \<Rightarrow> nat \<Rightarrow> (string \<times> string) list \<Rightarrow> NodeSig list" where
  "sigsB env k pB = map (nodeSig k (adjB env) pB GraphB) (nodes (graphB env))"

definition uniqueSigs :: "Env \<Rightarrow> nat \<Rightarrow> (string \<times> string) list \<Rightarrow> (string \<times> string) list \<Rightarrow> string list" where
  "uniqueSigs env k pA pB = sort (newSet (map sig_signature (sigsA env k pA @ sigsB env k pB)))"

definition mintedOf :: "Env \<Rightarrow> nat \<Rightarrow> nat \<Rightarrow> (string \<times> string) list \<Rightarrow> (string \<times> string) list \<Rightarrow> MintState" where
  "mintedOf env c k pA pB =
     (let minted = fold (mintSig k) (uniqueSigs env k pA pB)
                     \<lparr>ms_counter = c, ms_stepMapping = [], ms_mappingList = []\<rparr>
      in if k = 0 then fold (initMapping (initLabelMap env)) (sortedInitLabels env) minted else minted)"

text \<open>
  The \<open>n\<close> decimal strings that follow the counter value \<open>c\<close>, the step-0 signature
  of a raw initial label, and a mapping entry from a pair.
\<close>

definition freshLabels :: "nat \<Rightarrow> nat \<Rightarrow> string list" where
  "freshLabels c n = map toString_nat [Suc c..<Suc c + n]"

definition bracketed :: "int \<Rightarrow> string" where
  "bracketed v = CHR ''['' # toString_int v @ '']''"

definition toMapping :: "string \<times> string \<Rightarrow> HashMapping" where
  "toMapping p = \<lparr>hm_signature = fst p, hm_label = snd p\<rparr>"

subsection \<open>Nodes and their labels in a step\<close>

text \<open>
  A node is named by the tag of its graph and its id. Its label in a step is the
  \<^verbatim>\<open>label\<close> of its entry in the step's node map of that graph (\<open>None\<close> when the map
  has no entry). \<open>allLabels\<close> lists the LabelIds of the mappings of a sequence of steps
  in the order they were minted.
\<close>

definition graphFor :: "GraphData \<Rightarrow> GraphData \<Rightarrow> GraphTag \<Rightarrow> GraphData" where
  "graphFor gA gB g = (case g of GraphA \<Rightarrow> gA | GraphB \<Rightarrow> gB)"

definition nodeDataFor :: "WLStep \<Rightarrow> GraphTag \<Rightarrow> (string \<times> WLStepNodeData) list" where
  "nodeDataFor s g = (case g of GraphA \<Rightarrow> nodeDataA s | GraphB \<Rightarrow> nodeDataB s)"

definition labelOf :: "(string \<times> WLStepNodeData) list \<Rightarrow> string \<Rightarrow> string option" where
  "labelOf nodeData i = map_option nd_label (map_of nodeData i)"

definition nodeLabel :: "WLStep \<Rightarrow> GraphTag \<Rightarrow> string \<Rightarrow> string option" where
  "nodeLabel s g i = labelOf (case g of GraphA \<Rightarrow> nodeDataA s | GraphB \<Rightarrow> nodeDataB s) i"

definition isNode :: "GraphData \<Rightarrow> GraphData \<Rightarrow> GraphTag \<Rightarrow> string \<Rightarrow> bool" where
  "isNode gA gB g i = (i \<in> node_id ` set (nodes (case g of GraphA \<Rightarrow> gA | GraphB \<Rightarrow> gB)))"

definition prevOf :: "GraphData \<Rightarrow> GraphData \<Rightarrow> nat \<Rightarrow> GraphTag \<Rightarrow> (string \<times> string) list" where
  "prevOf gA gB n g = (case g of GraphA \<Rightarrow> prevA gA gB n | GraphB \<Rightarrow> prevB gA gB n)"

definition allLabels :: "WLStep list \<Rightarrow> string list" where
  "allLabels ss = concat (map (\<lambda>s. map hm_label (mappings s)) ss)"

subsection \<open>Links with an unknown endpoint, neighbours read off the link list\<close>

text \<open>
  The guard of \<^verbatim>\<open>getAdjacencyList\<close>, \<^verbatim>\<open>adj.has(l.source) && adj.has(l.target)\<close>, read on the
  graph: both endpoints are node ids of the graph. \<open>dropDangling\<close> is the graph without
  the links that fail it. \<open>linkNeighbors\<close> is the neighbour list of a node id as the
  link list gives it: in link order, every link with both endpoints known contributes its
  target when the id is its source and then its source when the id is its target.
\<close>

definition knownLink :: "GraphData \<Rightarrow> Link \<Rightarrow> bool" where
  "knownLink g l = (source l \<in> node_id ` set (nodes g) \<and> target l \<in> node_id ` set (nodes g))"

definition dropDangling :: "GraphData \<Rightarrow> GraphData" where
  "dropDangling g = g\<lparr>links := filter (knownLink g) (links g)\<rparr>"

definition linkNeighbors :: "GraphData \<Rightarrow> string \<Rightarrow> string list" where
  "linkNeighbors g u =
     concat (map (\<lambda>l. if knownLink g l
                       then (if source l = u then [target l] else []) @ (if target l = u then [source l] else [])
                       else []) (links g))"

subsection \<open>Graph isomorphism\<close>

text \<open>
  Two nodes are adjacent when some link joins them, in either direction; two graphs are
  isomorphic when a bijection between their node ids preserves adjacency both ways.
  (Initial labels are not compared: graphs that are not isomorphic in this sense are not
  isomorphic as labelled graphs either.)
\<close>

definition adjacent :: "GraphData \<Rightarrow> string \<Rightarrow> string \<Rightarrow> bool" where
  "adjacent g u v =
     list_ex (\<lambda>l. (source l = u \<and> target l = v) \<or> (source l = v \<and> target l = u)) (links g)"

definition isomorphic :: "GraphData \<Rightarrow> GraphData \<Rightarrow> bool" where
  "isomorphic g h =
     (\<exists>f. bij_betw f (node_id ` set (nodes g)) (node_id ` set (nodes h)) \<and>
          (\<forall>u \<in> node_id ` set (nodes g). \<forall>v \<in> node_id ` set (nodes g).
             adjacent g u v \<longleftrightarrow> adjacent h (f u) (f v)))"

subsection \<open>Input order\<close>

text \<open>
  A graph is well formed when its node ids are unique, as the data model of the
  specification requires. \<open>reordered g' g\<close>: \<open>g'\<close> has the nodes and the links of
  \<open>g\<close>, each array in some other order. \<open>observe\<close> is what a reader gets from a step:
  its fields, with the two node maps and the two histograms as mappings (the result of a
  lookup for every key) and the key enumeration of each histogram.
\<close>

definition wellFormed :: "GraphData \<Rightarrow> bool" where
  "wellFormed g = distinct (map node_id (nodes g))"

definition reordered :: "GraphData \<Rightarrow> GraphData \<Rightarrow> bool" where
  "reordered g' g = (mset (nodes g') = mset (nodes g) \<and> mset (links g') = mset (links g))"

definition observe ::
  "WLStep \<Rightarrow> nat \<times> (string \<rightharpoonup> WLStepNodeData) \<times> (string \<rightharpoonup> WLStepNodeData)
     \<times> (string \<rightharpoonup> nat) \<times> (string \<rightharpoonup> nat) \<times> string list \<times> string list
     \<times> string list \<times> HashMapping list \<times> bool" where
  "observe s =
     (step_k s, map_of (nodeDataA s), map_of (nodeDataB s),
      map_of (labelCountsA s), map_of (labelCountsB s),
      Object_keys (labelCountsA s), Object_keys (labelCountsB s),
      uniqueLabels s, mappings s, isIsomorphicCandidate s)"

subsection \<open>Concrete inputs\<close>

definition emptyGraph :: GraphData where
  "emptyGraph = \<lparr>nodes = [], links = []\<rparr>"

definition oneNode :: "string \<Rightarrow> int \<Rightarrow> GraphData" where
  "oneNode i lab = \<lparr>nodes = [\<lparr>node_id = i, originalLabel = lab\<rparr>], links = []\<rparr>"

definition danglingGraph :: GraphData where
  "danglingGraph = \<lparr>nodes = [\<lparr>node_id = ''a'', originalLabel = 1\<rparr>],
                     links = [\<lparr>source = ''a'', target = ''zz''\<rparr>]\<rparr>"

definition multiGraph :: GraphData where
  "multiGraph = \<lparr>nodes = [\<lparr>node_id = ''a'', originalLabel = 1\<rparr>, \<lparr>node_id = ''b'', originalLabel = 2\<rparr>],
                  links = [\<lparr>source = ''a'', target = ''b''\<rparr>, \<lparr>source = ''a'', target = ''b''\<rparr>,
                           \<lparr>source = ''b'', target = ''b''\<rparr>]\<rparr>"

definition swappedMultiGraph :: GraphData where
  "swappedMultiGraph = \<lparr>nodes = [\<lparr>node_id = ''b'', originalLabel = 2\<rparr>, \<lparr>node_id = ''a'', originalLabel = 1\<rparr>],
                         links = [\<lparr>source = ''b'', target = ''b''\<rparr>, \<lparr>source = ''a'', target = ''b''\<rparr>,
                                  \<lparr>source = ''a'', target = ''b''\<rparr>]\<rparr>"

definition dupGraph :: GraphData where
  "dupGraph = \<lparr>nodes = [\<lparr>node_id = ''a'', originalLabel = 1\<rparr>, \<lparr>node_id = ''a'', originalLabel = 2\<rparr>],
                links = []\<rparr>"

definition dupGraphSwapped :: GraphData where
  "dupGraphSwapped = \<lparr>nodes = [\<lparr>node_id = ''a'', originalLabel = 2\<rparr>, \<lparr>node_id = ''a'', originalLabel = 1\<rparr>],
                       links = []\<rparr>"

section \<open>Properties\<close>

subsection \<open>Decimal strings\<close>

lemma digit_cases: "d < 10 \<Longrightarrow> d \<in> {0, 1, 2, 3, 4, 5, 6, 7, 8, 9::nat}"
  by auto

lemma digit_val_digit_char: "d < 10 \<Longrightarrow> digit_val (digit_char d) = d"
  using digit_cases [of d] by (auto simp: digit_val_def digit_char_def)

lemma is_digit_digit_char: "d < 10 \<Longrightarrow> is_digit (digit_char d)"
  using digit_cases [of d] by (auto simp: is_digit_def digit_char_def)

lemma toString_nat_digits: "list_all is_digit (toString_nat n)"
proof (induction n rule: toString_nat.induct)
  case (1 n)
  show ?case
  proof (cases "n < 10")
    case True
    then show ?thesis by (subst toString_nat.simps) (simp add: is_digit_digit_char)
  next
    case False
    then show ?thesis using 1 by (subst toString_nat.simps) (simp add: is_digit_digit_char)
  qed
qed

lemma toString_nat_nonempty: "toString_nat n \<noteq> []"
  by (subst toString_nat.simps) simp

lemma parseInt_digits: "list_all is_digit s \<Longrightarrow> parseInt s = foldl (\<lambda>n c. 10 * n + digit_val c) 0 s"
  by (simp add: parseInt_def list_all_iff takeWhile_eq_all_conv [THEN iffD2])

lemma parseInt_toString_nat: "parseInt (toString_nat n) = n"
proof (induction n rule: toString_nat.induct)
  case (1 n)
  show ?case
  proof (cases "n < 10")
    case True
    then show ?thesis
      by (subst toString_nat.simps) (simp add: parseInt_def is_digit_digit_char digit_val_digit_char)
  next
    case False
    have d: "list_all is_digit (toString_nat (n div 10) @ [digit_char (n mod 10)])"
      using toString_nat_digits [of "n div 10"] by (simp add: is_digit_digit_char)
    have ih: "foldl (\<lambda>n c. 10 * n + digit_val c) 0 (toString_nat (n div 10)) = n div 10"
      using 1 False parseInt_digits [OF toString_nat_digits, of "n div 10"] by simp
    have "parseInt (toString_nat n) = parseInt (toString_nat (n div 10) @ [digit_char (n mod 10)])"
      using False by (subst toString_nat.simps) simp
    also have "\<dots> = 10 * (n div 10) + n mod 10"
      unfolding parseInt_digits [OF d] by (simp add: ih digit_val_digit_char)
    finally show ?thesis by simp
  qed
qed

lemma toString_nat_inj: "toString_nat m = toString_nat n \<Longrightarrow> m = n"
  by (metis parseInt_toString_nat)

lemma toString_nat_hd_digit: "is_digit (hd (toString_nat n))"
  using toString_nat_digits [of n] toString_nat_nonempty [of n]
  by (cases "toString_nat n") auto

lemma toString_int_inj: "toString_int i = toString_int j \<Longrightarrow> i = j"
proof -
  have neg: "\<not> is_digit CHR ''-''" by (simp add: is_digit_def)
  assume a: "toString_int i = toString_int j"
  have h: "\<And>n. toString_nat n \<noteq> CHR ''-'' # s" for s
    using toString_nat_hd_digit neg by (metis list.sel(1))
  show ?thesis
  proof (cases "i < 0"; cases "j < 0")
    assume "i < 0" "j < 0"
    with a have "nat (- i) = nat (- j)" by (simp add: toString_int_def toString_nat_inj)
    with \<open>i < 0\<close> \<open>j < 0\<close> show ?thesis by simp
  next
    assume "i < 0" "\<not> j < 0"
    with a h [of "nat j" "toString_nat (nat (- i))"] show ?thesis by (simp add: toString_int_def)
  next
    assume "\<not> i < 0" "j < 0"
    with a h [of "nat i" "toString_nat (nat (- j))"] show ?thesis by (simp add: toString_int_def)
  next
    assume "\<not> i < 0" "\<not> j < 0"
    with a have "nat i = nat j" by (simp add: toString_int_def toString_nat_inj)
    with \<open>\<not> i < 0\<close> \<open>\<not> j < 0\<close> show ?thesis by simp
  qed
qed

subsection \<open>The loop\<close>

lemma wlLoop_stop: "\<not> int k \<le> maxK \<Longrightarrow> wlLoop env maxK k a b c = []"
  by (subst wlLoop.simps) simp

lemma wlLoop_step:
  "int k \<le> maxK \<Longrightarrow>
   wlLoop env maxK k a b c =
     step (stepRes env k (a, b, c))
       # wlLoop env maxK (Suc k) (fst (nextState env k (a, b, c)))
           (fst (snd (nextState env k (a, b, c)))) (snd (snd (nextState env k (a, b, c))))"
  by (subst wlLoop.simps) (simp add: Let_def stepRes_def nextState_def)

lemma wlLoop_closed:
  "wlLoop env maxK (Suc n) (fst (stateAt env s0 n)) (fst (snd (stateAt env s0 n)))
       (snd (snd (stateAt env s0 n)))
   = map (\<lambda>m. step (stepRes env (Suc m) (stateAt env s0 m))) [n..<nat maxK]"
proof (induction "nat maxK - n" arbitrary: n)
  case 0
  then have "\<not> int (Suc n) \<le> maxK" by linarith
  moreover from 0 have "[n..<nat maxK] = []" by simp
  ultimately show ?case by (simp add: wlLoop_stop)
next
  case (Suc d)
  then have le: "int (Suc n) \<le> maxK" and lt: "n < nat maxK" by linarith+
  from Suc have d: "d = nat maxK - Suc n" by linarith
  have "[n..<nat maxK] = n # [Suc n..<nat maxK]" using lt by (simp add: upt_conv_Cons)
  then show ?case
    using Suc.hyps(1) [OF d] by (simp add: wlLoop_step [OF le])
qed

lemma step0_counter: "globalLabelCounter (processStep env c 0 a b) = c"
proof -
  have "ms_counter (fold (initMapping ilm) vs st) = ms_counter st" for ilm vs st
    by (induction vs arbitrary: st) (simp_all add: initMapping_def Let_def)
  moreover have "fold (mintSig 0) us st = st" for us st
    by (induction us) (simp_all add: mintSig_def)
  ultimately show ?thesis by (simp add: processStep_def Let_def)
qed

lemma steps_runWLAlgorithm:
  "steps (runWLAlgorithm gA gB maxK) = map (stepAt gA gB) [0..<Suc (nat maxK)]"
proof -
  let ?env = "envOf gA gB" and ?s0 = "state0 gA gB"
  have "steps (runWLAlgorithm gA gB maxK)
        = step (stepRes ?env 0 ?s0) # wlLoop ?env maxK 1 (fst ?s0) (fst (snd ?s0)) (snd (snd ?s0))"
    by (simp add: runWLAlgorithm_def Let_def stepRes_def state0_def envOf_def initedOf_def
        sortedInitOf_def step0_counter)
  also have "wlLoop ?env maxK 1 (fst ?s0) (fst (snd ?s0)) (snd (snd ?s0))
        = map (\<lambda>m. step (stepRes ?env (Suc m) (stateAt ?env ?s0 m))) [0..<nat maxK]"
    using wlLoop_closed [of ?env maxK 0 ?s0] by simp
  also have "\<dots> = map (stepAt gA gB) (map Suc [0..<nat maxK])"
    by (simp add: stepAt_def)
  also have "step (stepRes ?env 0 ?s0) = stepAt gA gB 0" by (simp add: stepAt_def)
  finally show ?thesis by (simp add: upt_conv_Cons map_Suc_upt del: upt_Suc)
qed

lemma step_k_processStep: "step_k (step (processStep env c k a b)) = k"
  by (simp add: processStep_def Let_def)

lemma step_k_stepAt: "step_k (stepAt gA gB k) = k"
  by (simp add: stepAt_def stepRes_def step_k_processStep)

lemma length_steps: "length (steps (runWLAlgorithm gA gB maxK)) = Suc (nat maxK)"
  by (simp add: steps_runWLAlgorithm)

lemma nth_steps: "k \<le> nat maxK \<Longrightarrow> steps (runWLAlgorithm gA gB maxK) ! k = stepAt gA gB k"
  unfolding steps_runWLAlgorithm by (metis add_0 le_imp_less_Suc nth_map_upt diff_zero)

subsection \<open>The horizon\<close>

text \<open>
  Claim C8, as the code has it. \<^verbatim>\<open>runWLAlgorithm\<close> never fails on its horizon: it pushes
  the step-0 record and then one record for every \<open>k\<close> from 1 to \<open>maxK\<close>. For
  \<open>maxK \<ge> 0\<close> the sequence has exactly \<open>maxK + 1\<close> records carrying
  \<open>k = 0, 1, ..., maxK\<close> in order; for \<open>maxK < 0\<close> the loop body never runs and the
  call returns the single step-0 record.
\<close>

theorem C8_horizon:
  "refine gA gB maxK = Inr (steps (runWLAlgorithm gA gB maxK)) \<and>
   length (steps (runWLAlgorithm gA gB maxK)) = (if maxK < 0 then 1 else nat maxK + 1) \<and>
   map step_k (steps (runWLAlgorithm gA gB maxK)) = (if maxK < 0 then [0] else [0..<nat maxK + 1])"
proof -
  have "map step_k (steps (runWLAlgorithm gA gB maxK)) = [0..<Suc (nat maxK)]"
    unfolding steps_runWLAlgorithm by (simp add: step_k_stepAt [abs_def] map_idI del: upt_Suc)
  then show ?thesis by (simp add: refine_def length_steps)
qed

theorem C8_horizon_witness:
  "length (steps (runWLAlgorithm emptyGraph emptyGraph 2)) = 3 \<and>
   map step_k (steps (runWLAlgorithm emptyGraph emptyGraph 2)) = [0, 1, 2] \<and>
   length (steps (runWLAlgorithm emptyGraph emptyGraph (- 3))) = 1"
  using C8_horizon [of emptyGraph emptyGraph 2] C8_horizon [of emptyGraph emptyGraph "- 3"]
  by (simp add: upt_conv_Cons)

text \<open>
  The claim as written (a negative horizon fails with \<open>InvalidHorizon\<close>) does not hold:
  with \<open>maxK = -1\<close> on two empty graphs the call returns the step-0 record.
\<close>

theorem C8_negative_horizon_counterexample:
  "refine emptyGraph emptyGraph (- 1) =
     Inr [\<lparr>step_k = 0, nodeDataA = [], nodeDataB = [], labelCountsA = [], labelCountsB = [],
           uniqueLabels = [], mappings = [], isIsomorphicCandidate = True\<rparr>]"
  by code_simp

section \<open>Adjacency\<close>

subsection \<open>Keys of the adjacency map\<close>

lemma has_iff: "has m k \<longleftrightarrow> k \<in> fst ` set m"
  by (simp add: has_def map_of_eq_None_iff)

lemma keys_init_adj:
  "fst ` set (fold (\<lambda>n adj. AList.update (node_id n) [] adj) ns acc) = fst ` set acc \<union> node_id ` set ns"
  by (induction ns arbitrary: acc) (auto simp: dom_update)

lemma keys_push: "fst ` set (push adj k v) = fst ` set adj"
  by (auto simp: push_def dom_update split: option.splits dest: map_of_SomeD intro: rev_image_eqI)

lemma keys_addLink: "fst ` set (addLink l adj) = fst ` set adj"
  by (simp add: addLink_def keys_push)

lemma keys_fold_addLink: "fst ` set (fold addLink ls adj) = fst ` set adj"
  by (induction ls arbitrary: adj) (simp_all add: keys_addLink)

lemma keys_getAdjacencyList: "fst ` set (getAdjacencyList ns ls) = node_id ` set ns"
  by (simp add: getAdjacencyList_def keys_fold_addLink keys_init_adj)

lemma fold_addLink_filter:
  "fold addLink ls adj
   = fold addLink (filter (\<lambda>l. source l \<in> fst ` set adj \<and> target l \<in> fst ` set adj) ls) adj"
proof (induction ls arbitrary: adj)
  case Nil
  show ?case by simp
next
  case (Cons l ls)
  show ?case
  proof (cases "source l \<in> fst ` set adj \<and> target l \<in> fst ` set adj")
    case True
    then show ?thesis using Cons [of "addLink l adj"] by (simp add: keys_addLink)
  next
    case False
    then have "addLink l adj = adj" by (auto simp: addLink_def has_iff)
    with False show ?thesis using Cons [of adj] by auto
  qed
qed

lemma getAdjacencyList_dropDangling:
  "getAdjacencyList (nodes (dropDangling g)) (links (dropDangling g)) = getAdjacencyList (nodes g) (links g)"
  unfolding getAdjacencyList_def dropDangling_def
  by (subst (2) fold_addLink_filter) (simp add: keys_init_adj knownLink_def [abs_def])

subsection \<open>What a call reads of its graphs\<close>

lemma processStep_cong:
  assumes "nodes (graphA e') = nodes (graphA e)" "nodes (graphB e') = nodes (graphB e)"
    and "adjA e' = adjA e" "adjB e' = adjB e"
    and "sortedInitLabels e' = sortedInitLabels e" "initLabelMap e' = initLabelMap e"
  shows "processStep e' = processStep e"
  using assms by (simp add: processStep_def fun_eq_iff Let_def)

lemma stateAt_cong: "processStep e' = processStep e \<Longrightarrow> stateAt e' s n = stateAt e s n"
  by (induction n) (simp_all add: nextState_def stepRes_def)

lemma res_maxK_runWLAlgorithm: "res_maxK (runWLAlgorithm gA gB maxK) = maxK"
  by (simp add: runWLAlgorithm_def Let_def)

lemma runWLAlgorithm_reads:
  assumes "nodes gA' = nodes gA" "nodes gB' = nodes gB"
    and "getAdjacencyList (nodes gA') (links gA') = getAdjacencyList (nodes gA) (links gA)"
    and "getAdjacencyList (nodes gB') (links gB') = getAdjacencyList (nodes gB) (links gB)"
  shows "runWLAlgorithm gA' gB' maxK = runWLAlgorithm gA gB maxK"
proof -
  have si: "sortedInitOf gA' gB' = sortedInitOf gA gB"
    using assms by (simp add: sortedInitOf_def)
  then have ii: "initedOf gA' gB' = initedOf gA gB" by (simp add: initedOf_def)
  have ps: "processStep (envOf gA' gB') = processStep (envOf gA gB)"
    by (rule processStep_cong) (use assms in \<open>simp_all add: envOf_def si ii\<close>)
  have s0: "state0 gA' gB' = state0 gA gB" by (simp add: state0_def ii assms)
  have "stepAt gA' gB' k = stepAt gA gB k" for k
    by (simp add: stepAt_def stepRes_def ps s0 stateAt_cong [OF ps])
  then have "steps (runWLAlgorithm gA' gB' maxK) = steps (runWLAlgorithm gA gB maxK)"
    by (simp add: steps_runWLAlgorithm)
  then show ?thesis
    by (intro SimulationResult.equality) (simp_all add: res_maxK_runWLAlgorithm)
qed

subsection \<open>Links with an unknown endpoint are ignored\<close>

text \<open>
  Claim C7, as the code has it. A link whose source or target is not a node id of its own
  graph is skipped by the guard of \<^verbatim>\<open>getAdjacencyList\<close> and nothing else reads the
  links: the call does not fail, and it returns exactly what it returns on the input with
  those links removed.
\<close>

theorem C7_dangling_links_ignored:
  "runWLAlgorithm gA gB maxK = runWLAlgorithm (dropDangling gA) (dropDangling gB) maxK \<and>
   refine gA gB maxK = Inr (steps (runWLAlgorithm (dropDangling gA) (dropDangling gB) maxK))"
proof -
  have "runWLAlgorithm (dropDangling gA) (dropDangling gB) maxK = runWLAlgorithm gA gB maxK"
    by (rule runWLAlgorithm_reads)
      (simp_all add: getAdjacencyList_dropDangling, simp_all add: dropDangling_def)
  then show ?thesis by (simp add: refine_def)
qed

theorem C7_dangling_links_ignored_witness:
  "dropDangling danglingGraph = \<lparr>nodes = [\<lparr>node_id = ''a'', originalLabel = 1\<rparr>], links = []\<rparr> \<and>
   runWLAlgorithm danglingGraph emptyGraph 1
     = runWLAlgorithm \<lparr>nodes = [\<lparr>node_id = ''a'', originalLabel = 1\<rparr>], links = []\<rparr> emptyGraph 1"
proof -
  have d: "dropDangling danglingGraph = \<lparr>nodes = [\<lparr>node_id = ''a'', originalLabel = 1\<rparr>], links = []\<rparr>"
    by (simp add: dropDangling_def danglingGraph_def knownLink_def)
  have e: "dropDangling emptyGraph = emptyGraph"
    by (simp add: dropDangling_def emptyGraph_def)
  show ?thesis using C7_dangling_links_ignored [of danglingGraph emptyGraph 1] by (simp add: d e)
qed

text \<open>
  The claim as written (a dangling endpoint fails with \<open>InvalidGraphReference\<close> before
  any step record is produced) does not hold: the link of \<open>danglingGraph\<close> targets an
  unknown id, and the call returns the step-0 record.
\<close>

theorem C7_dangling_link_counterexample:
  "target (hd (links danglingGraph)) \<notin> node_id ` set (nodes danglingGraph) \<and>
   refine danglingGraph emptyGraph 0 =
     Inr [\<lparr>step_k = 0,
           nodeDataA = [(''a'', \<lparr>nd_id = ''a'', nd_label = ''1'', nd_originalLabel = 0,
                          nd_neighbors = [], nd_signature = ''[1]'',
                          nd_expandedSignature = \<lparr>self = ''1'', neighbors = []\<rparr>\<rparr>)],
           nodeDataB = [], labelCountsA = [(''1'', 1)], labelCountsB = [],
           uniqueLabels = [''1''],
           mappings = [\<lparr>hm_signature = ''Initial: 1'', hm_label = ''1''\<rparr>],
           isIsomorphicCandidate = False\<rparr>]"
  by code_simp

section \<open>The parts of a step\<close>

subsection \<open>processStep by its parts\<close>

lemma generateSig_eq: "generateSig k ns adj p g acc = acc @ map (nodeSig k adj p g) ns"
  unfolding generateSig_def by (induction ns arbitrary: acc) simp_all

lemma sig_graph_nodeSig: "sig_graph (nodeSig k adj p g n) = g"
  by (simp add: nodeSig_def Let_def)

lemma sig_id_nodeSig: "sig_id (nodeSig k adj p g n) = node_id n"
  by (simp add: nodeSig_def Let_def)

lemma fold_applyItem_countsA:
  "countsA (fold (applyItem M) sigs st)
   = fold (\<lambda>l c. bump c l) (map (\<lambda>i. getStr M (sig_signature i)) (filter (\<lambda>i. sig_graph i = GraphA) sigs))
       (countsA st)"
  by (induction sigs arbitrary: st) (simp_all add: applyItem_def Let_def)

lemma fold_applyItem_countsB:
  "countsB (fold (applyItem M) sigs st)
   = fold (\<lambda>l c. bump c l) (map (\<lambda>i. getStr M (sig_signature i)) (filter (\<lambda>i. sig_graph i \<noteq> GraphA) sigs))
       (countsB st)"
  by (induction sigs arbitrary: st) (simp_all add: applyItem_def Let_def)

lemma fold_applyItem_nodeDataA:
  "bs_nodeDataA (fold (applyItem M) sigs st)
   = fold (\<lambda>i m. AList.update (sig_id i) (nodeDataOf M i) m) (filter (\<lambda>i. sig_graph i = GraphA) sigs)
       (bs_nodeDataA st)"
  by (induction sigs arbitrary: st) (simp_all add: applyItem_def Let_def nodeDataOf_def)

lemma fold_applyItem_nodeDataB:
  "bs_nodeDataB (fold (applyItem M) sigs st)
   = fold (\<lambda>i m. AList.update (sig_id i) (nodeDataOf M i) m) (filter (\<lambda>i. sig_graph i \<noteq> GraphA) sigs)
       (bs_nodeDataB st)"
  by (induction sigs arbitrary: st) (simp_all add: applyItem_def Let_def nodeDataOf_def)

lemma fold_applyItem_nextLabsA:
  "nextLabsA (fold (applyItem M) sigs st)
   = fold (\<lambda>i m. AList.update (sig_id i) (getStr M (sig_signature i)) m) (filter (\<lambda>i. sig_graph i = GraphA) sigs)
       (nextLabsA st)"
  by (induction sigs arbitrary: st) (simp_all add: applyItem_def Let_def)

lemma fold_applyItem_nextLabsB:
  "nextLabsB (fold (applyItem M) sigs st)
   = fold (\<lambda>i m. AList.update (sig_id i) (getStr M (sig_signature i)) m) (filter (\<lambda>i. sig_graph i \<noteq> GraphA) sigs)
       (nextLabsB st)"
  by (induction sigs arbitrary: st) (simp_all add: applyItem_def Let_def)

lemma filter_sigsA [simp]:
  "filter (\<lambda>i. sig_graph i = GraphA) (sigsA env k p) = sigsA env k p"
  "filter (\<lambda>i. sig_graph i \<noteq> GraphA) (sigsA env k p) = []"
  by (simp_all add: sigsA_def filter_map o_def sig_graph_nodeSig)

lemma filter_sigsB [simp]:
  "filter (\<lambda>i. sig_graph i = GraphA) (sigsB env k p) = []"
  "filter (\<lambda>i. sig_graph i \<noteq> GraphA) (sigsB env k p) = sigsB env k p"
  by (simp_all add: sigsB_def filter_map o_def sig_graph_nodeSig)

lemma allSigs_eq:
  "generateSig k (nodes (graphB env)) (adjB env) pB GraphB
     (generateSig k (nodes (graphA env)) (adjA env) pA GraphA [])
   = sigsA env k pA @ sigsB env k pB"
  by (simp add: generateSig_eq sigsA_def sigsB_def)

lemma processStep_mapped:
  "processStep env c k pA pB =
     (let M = ms_stepMapping (mintedOf env c k pA pB);
          cA = histogram (map (\<lambda>i. getStr M (sig_signature i)) (sigsA env k pA));
          cB = histogram (map (\<lambda>i. getStr M (sig_signature i)) (sigsB env k pB))
      in \<lparr>step = \<lparr>step_k = k,
             nodeDataA = fold (\<lambda>i m. AList.update (sig_id i) (nodeDataOf M i) m) (sigsA env k pA) [],
             nodeDataB = fold (\<lambda>i m. AList.update (sig_id i) (nodeDataOf M i) m) (sigsB env k pB) [],
             labelCountsA = cA, labelCountsB = cB,
             uniqueLabels = sort_key parseInt (newSet (Object_keys cA @ Object_keys cB)),
             mappings = ms_mappingList (mintedOf env c k pA pB),
             isIsomorphicCandidate = areCountsEqual cA cB\<rparr>,
          nextLabelsA = fold (\<lambda>i m. AList.update (sig_id i) (getStr M (sig_signature i)) m) (sigsA env k pA) [],
          nextLabelsB = fold (\<lambda>i m. AList.update (sig_id i) (getStr M (sig_signature i)) m) (sigsB env k pB) [],
          globalLabelCounter = ms_counter (mintedOf env c k pA pB)\<rparr>)"
  unfolding processStep_def allSigs_eq Let_def
  by (simp add: fold_applyItem_countsA fold_applyItem_countsB fold_applyItem_nodeDataA
      fold_applyItem_nodeDataB fold_applyItem_nextLabsA fold_applyItem_nextLabsB
      emptyBuild_def histogram_def mintedOf_def uniqueSigs_def Let_def)

subsection \<open>Histograms and maps built by a loop\<close>

lemma sum_bump: "distinct (map fst c) \<Longrightarrow> sum_list (map snd (bump c l)) = Suc (sum_list (map snd c))"
proof (induction c)
  case Nil
  show ?case by (simp add: bump_def)
next
  case (Cons p c)
  obtain k v where p: "p = (k, v)" by (cases p)
  show ?case
  proof (cases "k = l")
    case True
    then show ?thesis by (simp add: bump_def p)
  next
    case False
    have "bump (p # c) l = p # bump c l" using False by (simp add: bump_def p)
    then show ?thesis using Cons by simp
  qed
qed

lemma distinct_bump: "distinct (map fst c) \<Longrightarrow> distinct (map fst (bump c l))"
  by (simp add: bump_def distinct_update)

lemma keys_bump: "fst ` set (bump c l) = insert l (fst ` set c)"
  by (simp add: bump_def dom_update)

lemma map_of_bump:
  "map_of (bump c l) = (map_of c)(l \<mapsto> (case map_of c l of None \<Rightarrow> 0 | Some n \<Rightarrow> n) + 1)"
  by (simp add: bump_def update_conv')

lemma fold_bump_props:
  "distinct (map fst c) \<Longrightarrow>
   distinct (map fst (fold (\<lambda>l c. bump c l) ls c)) \<and>
   sum_list (map snd (fold (\<lambda>l c. bump c l) ls c)) = sum_list (map snd c) + length ls \<and>
   fst ` set (fold (\<lambda>l c. bump c l) ls c) = fst ` set c \<union> set ls"
proof (induction ls arbitrary: c)
  case Nil
  then show ?case by simp
next
  case (Cons l ls)
  from Cons.IH [OF distinct_bump [OF Cons.prems, of l]] Cons.prems
  show ?case by (simp add: sum_bump keys_bump)
qed

lemma distinct_histogram: "distinct (map fst (histogram ls))"
  using fold_bump_props [of "[]" ls] by (simp add: histogram_def)

lemma sum_histogram: "sum_list (map snd (histogram ls)) = length ls"
  using fold_bump_props [of "[]" ls] by (simp add: histogram_def)

lemma keys_histogram: "fst ` set (histogram ls) = set ls"
  using fold_bump_props [of "[]" ls] by (simp add: histogram_def)

lemma map_of_fold_bump:
  "map_of (fold (\<lambda>l c. bump c l) ls c) l
   = (if l \<in> set ls then Some ((case map_of c l of None \<Rightarrow> 0 | Some n \<Rightarrow> n) + count_list ls l)
      else map_of c l)"
proof (induction ls arbitrary: c)
  case Nil
  show ?case by simp
next
  case (Cons x ls)
  show ?case unfolding fold_simps Cons.IH by (auto simp: map_of_bump)
qed

lemma map_of_histogram:
  "map_of (histogram ls) l = (if l \<in> set ls then Some (count_list ls l) else None)"
  by (simp add: histogram_def map_of_fold_bump)

lemma keys_fold_update:
  "fst ` set (fold (\<lambda>i m. AList.update (f i) (g i) m) xs acc) = fst ` set acc \<union> f ` set xs"
  by (induction xs arbitrary: acc) (auto simp: dom_update)

lemma distinct_fold_update:
  "distinct (map fst acc) \<Longrightarrow> distinct (map fst (fold (\<lambda>i m. AList.update (f i) (g i) m) xs acc))"
  by (induction xs arbitrary: acc) (simp_all add: distinct_update)

lemma areCountsEqual_iff:
  assumes "distinct (map fst c1)" "distinct (map fst c2)"
  shows "areCountsEqual c1 c2 \<longleftrightarrow>
         fst ` set c1 = fst ` set c2 \<and> (\<forall>l \<in> fst ` set c1. map_of c1 l = map_of c2 l)"
proof
  assume a: "areCountsEqual c1 c2"
  then have len: "length c1 = length c2"
    and eq: "\<forall>l \<in> fst ` set c1. map_of c1 l = map_of c2 l"
    by (auto simp: areCountsEqual_def Object_keys_def Let_def list_all_iff split: if_splits)
  have "fst ` set c1 \<subseteq> fst ` set c2"
  proof
    fix l assume l: "l \<in> fst ` set c1"
    then have "map_of c1 l \<noteq> None" by (simp add: map_of_eq_None_iff)
    with eq l have "map_of c2 l \<noteq> None" by metis
    then show "l \<in> fst ` set c2" by (simp add: map_of_eq_None_iff)
  qed
  moreover have "card (fst ` set c1) = card (fst ` set c2)"
    using distinct_card [OF assms(1)] distinct_card [OF assms(2)] len by simp
  ultimately have "fst ` set c1 = fst ` set c2"
    by (intro card_subset_eq) simp_all
  with eq show "fst ` set c1 = fst ` set c2 \<and> (\<forall>l \<in> fst ` set c1. map_of c1 l = map_of c2 l)"
    by simp
next
  assume b: "fst ` set c1 = fst ` set c2 \<and> (\<forall>l \<in> fst ` set c1. map_of c1 l = map_of c2 l)"
  then have "card (fst ` set c1) = card (fst ` set c2)" by simp
  then have "length c1 = length c2"
    using distinct_card [OF assms(1)] distinct_card [OF assms(2)] by simp
  moreover from b have "\<forall>l \<in> fst ` set c1. map_of c1 l = map_of c2 l" by blast
  then have "list_all (\<lambda>k. \<not> map_of c1 k \<noteq> map_of c2 k) (sort_key parseInt (map fst c1))"
    by (simp add: list_all_iff)
  ultimately show "areCountsEqual c1 c2"
    by (simp add: areCountsEqual_def Object_keys_def Let_def)
qed

lemma in_steps_cases:
  assumes "s \<in> set (steps (runWLAlgorithm gA gB maxK))"
  obtains k where "k \<le> nat maxK" "s = stepAt gA gB k"
proof -
  from assms have "s \<in> stepAt gA gB ` {0..<Suc (nat maxK)}"
    unfolding steps_runWLAlgorithm by (simp del: upt_Suc)
  then obtain k where "k < Suc (nat maxK)" "s = stepAt gA gB k" by auto
  then show thesis using that [of k] by simp
qed

lemma stepAt_processStep:
  "\<exists>c pA pB. stepAt gA gB k = step (processStep (envOf gA gB) c k pA pB)"
  unfolding stepAt_def stepRes_def by blast

lemma nodes_envOf [simp]: "nodes (graphA (envOf gA gB)) = nodes gA" "nodes (graphB (envOf gA gB)) = nodes gB"
  by (simp_all add: envOf_def)

subsection \<open>The candidate test\<close>

text \<open>
  Claim C3. For every step of the returned sequence, \<open>isIsomorphicCandidate\<close> is true
  if and only if \<open>labelCountsA\<close> and \<open>labelCountsB\<close> have exactly the same set of
  LabelId keys and every key has the same count in both. In particular the verdict is
  false when the two histograms have the same number of keys but a key occurs in only
  one of them (the length test of \<^verbatim>\<open>areCountsEqual\<close> passes and the lookup in the second
  record is \<^verbatim>\<open>undefined\<close>).
\<close>

theorem C3_candidate_iff_same_histogram:
  assumes "s \<in> set (steps (runWLAlgorithm gA gB maxK))"
  shows "isIsomorphicCandidate s \<longleftrightarrow>
           set (Object_keys (labelCountsA s)) = set (Object_keys (labelCountsB s)) \<and>
           (\<forall>l \<in> set (Object_keys (labelCountsA s)). map_of (labelCountsA s) l = map_of (labelCountsB s) l)"
proof -
  from assms obtain k where "s = stepAt gA gB k" by (rule in_steps_cases)
  then obtain c pA pB where s: "s = step (processStep (envOf gA gB) c k pA pB)"
    using stepAt_processStep by metis
  show ?thesis unfolding s processStep_mapped Let_def
    by (simp add: areCountsEqual_iff distinct_histogram Object_keys_def)
qed

theorem C3_candidate_iff_same_histogram_witness:
  "length (Object_keys (labelCountsA (hd (steps (runWLAlgorithm (oneNode ''a'' 1) (oneNode ''b'' 2) 0)))))
     = length (Object_keys (labelCountsB (hd (steps (runWLAlgorithm (oneNode ''a'' 1) (oneNode ''b'' 2) 0))))) \<and>
   \<not> isIsomorphicCandidate (hd (steps (runWLAlgorithm (oneNode ''a'' 1) (oneNode ''b'' 2) 0))) \<and>
   isIsomorphicCandidate (hd (steps (runWLAlgorithm (oneNode ''a'' 1) (oneNode ''b'' 1) 0)))"
proof -
  let ?s = "hd (steps (runWLAlgorithm (oneNode ''a'' 1) (oneNode ''b'' 2) 0))"
  let ?t = "hd (steps (runWLAlgorithm (oneNode ''a'' 1) (oneNode ''b'' 1) 0))"
  have m: "?s \<in> set (steps (runWLAlgorithm (oneNode ''a'' 1) (oneNode ''b'' 2) 0))" by code_simp
  have k: "set (Object_keys (labelCountsA ?s)) \<noteq> set (Object_keys (labelCountsB ?s))" by code_simp
  have l: "length (Object_keys (labelCountsA ?s)) = length (Object_keys (labelCountsB ?s))" by code_simp
  have m': "?t \<in> set (steps (runWLAlgorithm (oneNode ''a'' 1) (oneNode ''b'' 1) 0))" by code_simp
  have ta: "labelCountsA ?t = [(''1'', 1)]" by code_simp
  have tb: "labelCountsB ?t = [(''1'', 1)]" by code_simp
  from C3_candidate_iff_same_histogram [OF m] k have "\<not> isIsomorphicCandidate ?s" by blast
  moreover from C3_candidate_iff_same_histogram [OF m'] have "isIsomorphicCandidate ?t"
    unfolding ta tb by simp
  ultimately show ?thesis using l by blast
qed

subsection \<open>Conservation\<close>

text \<open>
  Claim C4. For every step of the returned sequence, the values of \<open>labelCountsA\<close> sum
  to the number of nodes of graph A and those of \<open>labelCountsB\<close> to the number
  of nodes of graph B, and the keys of the step's per-graph node map are exactly the node
  ids of that graph, each once: every node has exactly one label in the step.
\<close>

theorem C4_conservation:
  assumes "s \<in> set (steps (runWLAlgorithm gA gB maxK))"
  shows "sum_list (map snd (labelCountsA s)) = length (nodes gA) \<and>
         sum_list (map snd (labelCountsB s)) = length (nodes gB) \<and>
         distinct (map fst (nodeDataA s)) \<and> set (map fst (nodeDataA s)) = node_id ` set (nodes gA) \<and>
         distinct (map fst (nodeDataB s)) \<and> set (map fst (nodeDataB s)) = node_id ` set (nodes gB)"
proof -
  from assms obtain k where "s = stepAt gA gB k" by (rule in_steps_cases)
  then obtain c pA pB where s: "s = step (processStep (envOf gA gB) c k pA pB)"
    using stepAt_processStep by metis
  show ?thesis unfolding s processStep_mapped Let_def
    by (simp add: sum_histogram distinct_fold_update keys_fold_update sigsA_def sigsB_def
        image_image sig_id_nodeSig)
qed

theorem C4_conservation_witness:
  "sum_list (map snd (labelCountsA (steps (runWLAlgorithm cyclesA cyclesB 1) ! 1))) = 6 \<and>
   sum_list (map snd (labelCountsB (steps (runWLAlgorithm cyclesA cyclesB 1) ! 1))) = 6 \<and>
   distinct (map fst (nodeDataA (steps (runWLAlgorithm cyclesA cyclesB 1) ! 1))) \<and>
   length (nodeDataB (steps (runWLAlgorithm cyclesA cyclesB 1) ! 1)) = 6"
proof -
  let ?s = "steps (runWLAlgorithm cyclesA cyclesB 1) ! 1"
  have m: "?s \<in> set (steps (runWLAlgorithm cyclesA cyclesB 1))"
    by (rule nth_mem) (simp add: length_steps)
  have a: "length (nodes cyclesA) = 6" by code_simp
  have b: "length (nodes cyclesB) = 6" by code_simp
  have c: "card (node_id ` set (nodes cyclesB)) = 6" by code_simp
  from C4_conservation [OF m] have d: "distinct (map fst (nodeDataB ?s))"
    and e: "set (map fst (nodeDataB ?s)) = node_id ` set (nodes cyclesB)" by blast+
  have "length (nodeDataB ?s) = 6" using distinct_card [OF d] e c by simp
  with C4_conservation [OF m] a b show ?thesis by simp
qed

section \<open>The CYCLES scenario\<close>

subsection \<open>Evaluation and the triangles of the second graph\<close>

lemma cycles_run:
  "map (\<lambda>s. (step_k s, labelCountsA s, labelCountsB s, isIsomorphicCandidate s))
       (steps (runWLAlgorithm cyclesA cyclesB MAX_K))
   = [(0, [(''1'', 6)], [(''1'', 6)], True), (1, [(''2'', 6)], [(''2'', 6)], True),
      (2, [(''3'', 6)], [(''3'', 6)], True), (3, [(''4'', 6)], [(''4'', 6)], True),
      (4, [(''5'', 6)], [(''5'', 6)], True), (5, [(''6'', 6)], [(''6'', 6)], True)]"
  by code_simp

lemma cyclesB_triangles:
  "list_all (\<lambda>b. list_all (\<lambda>x. list_all (\<lambda>y. \<not> (adjacent cyclesB b x \<and> adjacent cyclesB b y \<and> x \<noteq> y) \<or> adjacent cyclesB x y)
      (map node_id (nodes cyclesB))) (map node_id (nodes cyclesB))) (map node_id (nodes cyclesB))"
  by code_simp

lemma cyclesA_no_triangle:
  "adjacent cyclesA ''A_C6_0'' ''A_C6_1'' \<and> adjacent cyclesA ''A_C6_0'' ''A_C6_5'' \<and>
   \<not> adjacent cyclesA ''A_C6_1'' ''A_C6_5'' \<and>
   ''A_C6_0'' \<in> node_id ` set (nodes cyclesA) \<and> ''A_C6_1'' \<in> node_id ` set (nodes cyclesA) \<and>
   ''A_C6_5'' \<in> node_id ` set (nodes cyclesA)"
  by code_simp

lemma cycles_not_isomorphic: "\<not> isomorphic cyclesA cyclesB"
proof
  assume "isomorphic cyclesA cyclesB"
  then obtain f where bij: "bij_betw f (node_id ` set (nodes cyclesA)) (node_id ` set (nodes cyclesB))"
    and adj: "\<And>u v. u \<in> node_id ` set (nodes cyclesA) \<Longrightarrow> v \<in> node_id ` set (nodes cyclesA)
               \<Longrightarrow> adjacent cyclesA u v \<longleftrightarrow> adjacent cyclesB (f u) (f v)"
    unfolding isomorphic_def by blast
  let ?a = "''A_C6_0''" and ?x = "''A_C6_1''" and ?y = "''A_C6_5''"
  note A = cyclesA_no_triangle
  have fb: "f ?a \<in> set (map node_id (nodes cyclesB))" "f ?x \<in> set (map node_id (nodes cyclesB))"
    "f ?y \<in> set (map node_id (nodes cyclesB))"
    using bij A by (auto simp: bij_betw_def)
  have ne: "f ?x \<noteq> f ?y"
  proof -
    have "?x \<noteq> ?y" by simp
    with bij A show ?thesis unfolding bij_betw_def inj_on_def by blast
  qed
  have "adjacent cyclesB (f ?a) (f ?x)" "adjacent cyclesB (f ?a) (f ?y)"
    using adj A by blast+
  with ne fb cyclesB_triangles have "adjacent cyclesB (f ?x) (f ?y)"
    unfolding list_all_iff by blast
  with adj A show False by blast
qed

subsection \<open>Indistinguishable and not isomorphic\<close>

text \<open>
  Claim C9. \<open>cyclesA\<close> is the single 6-node cycle and \<open>cyclesB\<close> the two disjoint
  3-node cycles of the CYCLES scenario, every node with initial label 1. Run with
  \<open>maxK = 5\<close>, at every step \<open>k = 0..5\<close> each histogram has exactly one LabelId key,
  with count 6, and \<open>isIsomorphicCandidate\<close> is true, although the two graphs are not
  isomorphic.
\<close>

theorem C9_cycles_indistinguishable:
  "map (\<lambda>s. (step_k s, labelCountsA s, labelCountsB s, isIsomorphicCandidate s))
       (steps (runWLAlgorithm cyclesA cyclesB 5))
   = [(0, [(''1'', 6)], [(''1'', 6)], True), (1, [(''2'', 6)], [(''2'', 6)], True),
      (2, [(''3'', 6)], [(''3'', 6)], True), (3, [(''4'', 6)], [(''4'', 6)], True),
      (4, [(''5'', 6)], [(''5'', 6)], True), (5, [(''6'', 6)], [(''6'', 6)], True)] \<and>
   \<not> isomorphic cyclesA cyclesB"
  using cycles_run cycles_not_isomorphic by (simp add: MAX_K_def)

theorem C9_cycles_indistinguishable_witness:
  "isIsomorphicCandidate (steps (runWLAlgorithm cyclesA cyclesB 5) ! 5) \<and>
   labelCountsA (steps (runWLAlgorithm cyclesA cyclesB 5) ! 5) = [(''6'', 6)] \<and>
   labelCountsB (steps (runWLAlgorithm cyclesA cyclesB 5) ! 5) = [(''6'', 6)]"
proof -
  let ?f = "\<lambda>s. (step_k s, labelCountsA s, labelCountsB s, isIsomorphicCandidate s)"
  have "?f (steps (runWLAlgorithm cyclesA cyclesB 5) ! 5)
        = map ?f (steps (runWLAlgorithm cyclesA cyclesB 5)) ! 5"
    by (rule nth_map [symmetric]) (simp add: length_steps)
  also have "\<dots> = (5, [(''6'', 6)], [(''6'', 6)], True)"
    using C9_cycles_indistinguishable by simp
  finally show ?thesis by simp
qed

section \<open>Adjacency with multiplicity\<close>

subsection \<open>The adjacency list of a node\<close>

lemma map_of_push:
  "map_of (push adj k v) u
   = (case map_of adj u of None \<Rightarrow> None | Some xs \<Rightarrow> Some (if u = k then xs @ [v] else xs))"
  by (auto simp: push_def update_conv' split: option.splits)

lemma map_of_addLink:
  assumes "map_of adj u = Some xs"
  shows "map_of (addLink l adj) u
         = Some (xs @ (if source l \<in> fst ` set adj \<and> target l \<in> fst ` set adj
                       then (if source l = u then [target l] else []) @ (if target l = u then [source l] else [])
                       else []))"
  using assms by (simp add: addLink_def has_iff map_of_push)

lemma map_of_fold_addLink:
  assumes "map_of adj u = Some xs"
  shows "map_of (fold addLink ls adj) u
         = Some (xs @ concat (map (\<lambda>l. if source l \<in> fst ` set adj \<and> target l \<in> fst ` set adj
                       then (if source l = u then [target l] else []) @ (if target l = u then [source l] else [])
                       else []) ls))"
  using assms
proof (induction ls arbitrary: adj xs)
  case Nil
  then show ?case by simp
next
  case (Cons l ls)
  show ?case
    unfolding fold_simps Cons.IH [OF map_of_addLink [OF Cons.prems]]
    by (simp add: keys_addLink)
qed

lemma map_of_init_adj:
  "map_of (fold (\<lambda>n adj. AList.update (node_id n) [] adj) ns acc) u
   = (if u \<in> node_id ` set ns then Some [] else map_of acc u)"
  by (induction ns arbitrary: acc) (auto simp: update_conv')

lemma map_of_getAdjacencyList:
  "map_of (getAdjacencyList (nodes g) (links g)) u
   = (if u \<in> node_id ` set (nodes g) then Some (linkNeighbors g u) else None)"
proof (cases "u \<in> node_id ` set (nodes g)")
  case True
  then have "map_of (fold (\<lambda>n adj. AList.update (node_id n) [] adj) (nodes g) []) u = Some []"
    by (simp add: map_of_init_adj)
  from map_of_fold_addLink [OF this, of "links g"] True show ?thesis
    by (simp add: getAdjacencyList_def linkNeighbors_def keys_init_adj knownLink_def)
next
  case False
  then have "u \<notin> fst ` set (getAdjacencyList (nodes g) (links g))"
    by (simp add: keys_getAdjacencyList)
  then show ?thesis using False by (simp add: map_of_eq_None_iff)
qed

lemma count_contribution:
  "count_list ((if K then (if s = u then [t] else []) @ (if t = u then [s] else []) else [])) v
   = (if K \<and> s = u \<and> t = v then 1 else 0) + (if K \<and> t = u \<and> s = v then 1 else (0::nat))"
  by (cases K; cases "s = u"; cases "t = u"; cases "t = v"; cases "s = v") simp_all

lemma length_filter_two:
  "((if P l then 1 else 0) + (if Q l then 1 else 0)) + (length (filter P ls) + length (filter Q ls))
   = length (filter P (l # ls)) + length (filter Q (l # ls))"
  by simp

lemma count_contributions:
  "count_list (concat (map (\<lambda>l. if K l
                       then (if source l = u then [target l] else []) @ (if target l = u then [source l] else [])
                       else []) ls)) v
   = length (filter (\<lambda>l. K l \<and> source l = u \<and> target l = v) ls)
     + length (filter (\<lambda>l. K l \<and> target l = u \<and> source l = v) ls)"
proof (induction ls)
  case Nil
  show ?case by simp
next
  case (Cons l ls)
  have "count_list (concat (map (\<lambda>l. if K l
                       then (if source l = u then [target l] else []) @ (if target l = u then [source l] else [])
                       else []) (l # ls))) v
        = ((if K l \<and> source l = u \<and> target l = v then 1 else 0)
            + (if K l \<and> target l = u \<and> source l = v then 1 else 0))
          + (length (filter (\<lambda>l. K l \<and> source l = u \<and> target l = v) ls)
            + length (filter (\<lambda>l. K l \<and> target l = u \<and> source l = v) ls))"
    unfolding list.map concat.simps count_list_append Cons.IH count_contribution ..
  also have "\<dots> = length (filter (\<lambda>l. K l \<and> source l = u \<and> target l = v) (l # ls))
     + length (filter (\<lambda>l. K l \<and> target l = u \<and> source l = v) (l # ls))"
    by (rule length_filter_two)
  finally show ?case .
qed

lemma count_linkNeighbors:
  "count_list (linkNeighbors g u) v
   = length (filter (\<lambda>l. knownLink g l \<and> source l = u \<and> target l = v) (links g))
     + length (filter (\<lambda>l. knownLink g l \<and> target l = u \<and> source l = v) (links g))"
  unfolding linkNeighbors_def by (rule count_contributions)

subsection \<open>Multiplicity\<close>

text \<open>
  Claim C10. For a node of the graph, \<^verbatim>\<open>getAdjacencyList\<close> stores exactly
  \<open>linkNeighbors\<close>: one entry per occurrence of a link with both endpoints known, the
  target in the source's list and the source in the target's. At a step \<open>k > 0\<close> the
  neighbour labels of the node's signature are the previous labels of these entries as a
  multiset, so an id occurs among the neighbours once for every link occurrence towards it
  and once for every link occurrence from it: a duplicated link counts twice, and each
  occurrence of a self-loop counts twice for the node itself.
\<close>

theorem C10_adjacency_with_multiplicity:
  assumes "n \<in> set (nodes g)" and "0 < k"
  shows "map_of (getAdjacencyList (nodes g) (links g)) (node_id n) = Some (linkNeighbors g (node_id n)) \<and>
         mset (neighbors (sig_expanded (nodeSig k (getAdjacencyList (nodes g) (links g)) prev tag n)))
           = image_mset (getStr prev) (mset (linkNeighbors g (node_id n))) \<and>
         sig_signature (nodeSig k (getAdjacencyList (nodes g) (links g)) prev tag n)
           = ''('' @ getStr prev (node_id n) @ '',[''
             @ join '','' (neighbors (sig_expanded (nodeSig k (getAdjacencyList (nodes g) (links g)) prev tag n)))
             @ ''])'' \<and>
         (\<forall>v. count_list (linkNeighbors g (node_id n)) v
            = length (filter (\<lambda>l. knownLink g l \<and> source l = node_id n \<and> target l = v) (links g))
              + length (filter (\<lambda>l. knownLink g l \<and> target l = node_id n \<and> source l = v) (links g)))"
proof -
  from assms(1) have "map_of (getAdjacencyList (nodes g) (links g)) (node_id n) = Some (linkNeighbors g (node_id n))"
    by (simp add: map_of_getAdjacencyList)
  with assms(2) show ?thesis
    by (simp add: nodeSig_def Let_def count_linkNeighbors)
qed

theorem C10_adjacency_with_multiplicity_witness:
  "linkNeighbors multiGraph ''a'' = [''b'', ''b''] \<and>
   linkNeighbors multiGraph ''b'' = [''a'', ''a'', ''b'', ''b''] \<and>
   map_of (getAdjacencyList (nodes multiGraph) (links multiGraph)) ''b'' = Some [''a'', ''a'', ''b'', ''b''] \<and>
   sig_signature (nodeSig 1 (getAdjacencyList (nodes multiGraph) (links multiGraph))
      [(''a'', ''1''), (''b'', ''2'')] GraphA \<lparr>node_id = ''b'', originalLabel = 2\<rparr>) = ''(2,[1,1,2,2])''"
proof -
  have n: "\<lparr>node_id = ''b'', originalLabel = 2\<rparr> \<in> set (nodes multiGraph)" by (simp add: multiGraph_def)
  have a: "linkNeighbors multiGraph ''a'' = [''b'', ''b'']" by code_simp
  have b: "linkNeighbors multiGraph ''b'' = [''a'', ''a'', ''b'', ''b'']" by code_simp
  have s: "sig_signature (nodeSig 1 (getAdjacencyList (nodes multiGraph) (links multiGraph))
      [(''a'', ''1''), (''b'', ''2'')] GraphA \<lparr>node_id = ''b'', originalLabel = 2\<rparr>) = ''(2,[1,1,2,2])''"
    by code_simp
  have "map_of (getAdjacencyList (nodes multiGraph) (links multiGraph)) ''b''
        = Some (linkNeighbors multiGraph ''b'')"
    using C10_adjacency_with_multiplicity [OF n, of 1 "[(''a'', ''1''), (''b'', ''2'')]" GraphA]
    by simp
  then show ?thesis unfolding b using a s by simp
qed

section \<open>The global counter\<close>

subsection \<open>The minting loops\<close>

lemma update_fresh: "k \<notin> fst ` set al \<Longrightarrow> AList.update k v al = al @ [(k, v)]"
  by (induction al) auto

lemma set_fold_setAdd: "set (fold setAdd xs acc) = set acc \<union> set xs"
  by (induction xs arbitrary: acc) (auto simp: setAdd_def)

lemma distinct_fold_setAdd: "distinct acc \<Longrightarrow> distinct (fold setAdd xs acc)"
  by (induction xs arbitrary: acc) (auto simp: setAdd_def)

lemma set_newSet [simp]: "set (newSet xs) = set xs"
  by (simp add: newSet_def set_fold_setAdd)

lemma distinct_newSet [simp]: "distinct (newSet xs)"
  by (simp add: newSet_def distinct_fold_setAdd)

lemma freshLabels_Suc: "freshLabels c (Suc n) = toString_nat (Suc c) # freshLabels (Suc c) n"
proof -
  have "[Suc c..<Suc c + Suc n] = Suc c # [Suc (Suc c)..<Suc (Suc c) + n]"
    by (subst upt_conv_Cons) simp_all
  then show ?thesis by (simp only: freshLabels_def list.map)
qed

lemma length_freshLabels [simp]: "length (freshLabels c n) = n"
  by (simp add: freshLabels_def)

lemma distinct_freshLabels: "distinct (freshLabels c n)"
proof -
  have "inj_on toString_nat A" for A
    by (rule inj_onI) (rule toString_nat_inj)
  then show ?thesis unfolding freshLabels_def distinct_map by simp
qed

lemma fold_mintSig:
  assumes "0 < k" "distinct us" "set us \<inter> fst ` set (ms_stepMapping st) = {}"
  shows "fold (mintSig k) us st =
           \<lparr>ms_counter = ms_counter st + length us,
            ms_stepMapping = ms_stepMapping st @ zip us (freshLabels (ms_counter st) (length us)),
            ms_mappingList = ms_mappingList st
               @ map toMapping (zip us (freshLabels (ms_counter st) (length us)))\<rparr>"
  using assms(2,3)
proof (induction us arbitrary: st)
  case Nil
  show ?case by (simp add: freshLabels_def)
next
  case (Cons u us)
  let ?st = "mintSig k u st"
  have u: "u \<notin> fst ` set (ms_stepMapping st)" using Cons.prems by auto
  have st': "?st = \<lparr>ms_counter = Suc (ms_counter st),
                    ms_stepMapping = ms_stepMapping st @ [(u, toString_nat (Suc (ms_counter st)))],
                    ms_mappingList = ms_mappingList st
                       @ [toMapping (u, toString_nat (Suc (ms_counter st)))]\<rparr>"
    using assms(1) by (simp add: mintSig_def Let_def update_fresh [OF u] toMapping_def)
  have "set us \<inter> fst ` set (ms_stepMapping ?st) = {}"
    using Cons.prems unfolding st' by auto
  with Cons.IH [of ?st] Cons.prems have "fold (mintSig k) us ?st =
           \<lparr>ms_counter = ms_counter ?st + length us,
            ms_stepMapping = ms_stepMapping ?st @ zip us (freshLabels (ms_counter ?st) (length us)),
            ms_mappingList = ms_mappingList ?st
               @ map toMapping (zip us (freshLabels (ms_counter ?st) (length us)))\<rparr>"
    by simp
  then show ?case unfolding fold_simps by (simp add: st' freshLabels_Suc)
qed

lemma fold_mintInit:
  assumes "distinct vs" "set vs \<inter> fst ` set m = {}"
  shows "fold mintInit vs (c, m) = (c + length vs, m @ zip vs (freshLabels c (length vs)))"
  using assms
proof (induction vs arbitrary: c m)
  case Nil
  show ?case by (simp add: freshLabels_def)
next
  case (Cons v vs)
  have v: "v \<notin> fst ` set m" using Cons.prems by auto
  have st': "mintInit v (c, m) = (Suc c, m @ [(v, toString_nat (Suc c))])"
    by (simp add: mintInit_def update_fresh [OF v])
  have "set vs \<inter> fst ` set (m @ [(v, toString_nat (Suc c))]) = {}"
    using Cons.prems by auto
  with Cons.IH [of "m @ [(v, toString_nat (Suc c))]" "Suc c"] Cons.prems
  have "fold mintInit vs (Suc c, m @ [(v, toString_nat (Suc c))])
        = (Suc c + length vs, (m @ [(v, toString_nat (Suc c))]) @ zip vs (freshLabels (Suc c) (length vs)))"
    by simp
  then show ?case
    unfolding fold_simps st' by (simp add: freshLabels_Suc)
qed

lemma fold_mintSig_0: "fold (mintSig 0) us st = st"
  by (induction us) (simp_all add: mintSig_def)

lemma bracketed_inj: "bracketed v = bracketed w \<Longrightarrow> v = w"
  by (simp add: bracketed_def toString_int_inj)

lemma initMapping_eq:
  "initMapping ilm v st =
     \<lparr>ms_counter = ms_counter st,
      ms_stepMapping = AList.update (bracketed v) (getStr ilm v) (ms_stepMapping st),
      ms_mappingList = ms_mappingList st @ [toMapping (''Initial: '' @ toString_int v, getStr ilm v)]\<rparr>"
  by (simp add: initMapping_def Let_def toMapping_def bracketed_def)

lemma fold_initMapping:
  assumes "distinct vs" "bracketed ` set vs \<inter> fst ` set (ms_stepMapping st) = {}"
  shows "fold (initMapping ilm) vs st =
           \<lparr>ms_counter = ms_counter st,
            ms_stepMapping = ms_stepMapping st @ map (\<lambda>v. (bracketed v, getStr ilm v)) vs,
            ms_mappingList = ms_mappingList st
               @ map (\<lambda>v. toMapping (''Initial: '' @ toString_int v, getStr ilm v)) vs\<rparr>"
  using assms
proof (induction vs arbitrary: st)
  case Nil
  show ?case by simp
next
  case (Cons v vs)
  let ?st = "initMapping ilm v st"
  have v: "bracketed v \<notin> fst ` set (ms_stepMapping st)" using Cons.prems by auto
  have st': "?st = \<lparr>ms_counter = ms_counter st,
                    ms_stepMapping = ms_stepMapping st @ [(bracketed v, getStr ilm v)],
                    ms_mappingList = ms_mappingList st
                       @ [toMapping (''Initial: '' @ toString_int v, getStr ilm v)]\<rparr>"
    by (simp add: initMapping_eq update_fresh [OF v])
  have "bracketed v \<notin> bracketed ` set vs"
    using Cons.prems(1) bracketed_inj by auto
  moreover have "bracketed ` set vs \<inter> fst ` set (ms_stepMapping st) = {}"
    using Cons.prems(2) by auto
  ultimately have "bracketed ` set vs \<inter> fst ` set (ms_stepMapping ?st) = {}"
    unfolding st' by auto
  with Cons.IH [of ?st] Cons.prems show ?case
    unfolding fold_simps by (simp add: st')
qed

lemma distinct_uniqueSigs: "distinct (uniqueSigs env k pA pB)"
  by (simp add: uniqueSigs_def)

lemma set_uniqueSigs:
  "set (uniqueSigs env k pA pB) = sig_signature ` (set (sigsA env k pA) \<union> set (sigsB env k pB))"
  by (simp add: uniqueSigs_def image_Un)

lemma sorted_uniqueSigs: "sorted (uniqueSigs env k pA pB)"
  by (simp add: uniqueSigs_def)

lemma mintedOf_pos:
  assumes "0 < k"
  shows "mintedOf env c k pA pB =
           \<lparr>ms_counter = c + length (uniqueSigs env k pA pB),
            ms_stepMapping = zip (uniqueSigs env k pA pB) (freshLabels c (length (uniqueSigs env k pA pB))),
            ms_mappingList = map toMapping
               (zip (uniqueSigs env k pA pB) (freshLabels c (length (uniqueSigs env k pA pB))))\<rparr>"
  using assms fold_mintSig [OF assms distinct_uniqueSigs, of env k pA pB
      "\<lparr>ms_counter = c, ms_stepMapping = [], ms_mappingList = []\<rparr>"]
  by (simp add: mintedOf_def Let_def)

lemma mintedOf_0:
  assumes "distinct (sortedInitLabels env)"
  shows "mintedOf env c 0 pA pB =
           \<lparr>ms_counter = c,
            ms_stepMapping = map (\<lambda>v. (bracketed v, getStr (initLabelMap env) v))
                               (sortedInitLabels env),
            ms_mappingList = map (\<lambda>v. toMapping (''Initial: '' @ toString_int v, getStr (initLabelMap env) v))
                               (sortedInitLabels env)\<rparr>"
  using fold_initMapping [OF assms, of "\<lparr>ms_counter = c, ms_stepMapping = [], ms_mappingList = []\<rparr>"
      "initLabelMap env"]
  by (simp add: mintedOf_def Let_def fold_mintSig_0)

lemma sortedInitOf_eq:
  "sortedInitOf gA gB
   = sort (fold setAdd (map originalLabel (nodes gB)) (fold setAdd (map originalLabel (nodes gA)) []))"
  by (simp only: sortedInitOf_def fold_map o_def)

lemma distinct_sortedInitOf: "distinct (sortedInitOf gA gB)"
  by (simp add: sortedInitOf_eq distinct_fold_setAdd)

lemma set_sortedInitOf:
  "set (sortedInitOf gA gB) = originalLabel ` (set (nodes gA) \<union> set (nodes gB))"
  by (auto simp: sortedInitOf_eq set_fold_setAdd)

lemma sorted_sortedInitOf: "sorted (sortedInitOf gA gB)"
  by (simp add: sortedInitOf_eq)

lemma initedOf_eq:
  "initedOf gA gB = (length (sortedInitOf gA gB),
                     zip (sortedInitOf gA gB) (freshLabels 0 (length (sortedInitOf gA gB))))"
  using fold_mintInit [OF distinct_sortedInitOf, of gA gB "[]" 0]
  by (simp add: initedOf_def)

subsection \<open>The loop state and the labels minted by each step\<close>

lemma stepAt_0:
  "stepAt gA gB 0 = step (processStep (envOf gA gB) (counterAt gA gB 0) 0 (prevA gA gB 0) (prevB gA gB 0))"
  by (simp add: stepAt_def stepRes_def counterAt_def prevA_def prevB_def)

lemma stepAt_Suc:
  "stepAt gA gB (Suc n)
   = step (processStep (envOf gA gB) (counterAt gA gB n) (Suc n) (prevA gA gB n) (prevB gA gB n))"
  by (simp add: stepAt_def stepRes_def counterAt_def prevA_def prevB_def)

lemma state_Suc:
  "prevA gA gB (Suc n)
     = nextLabelsA (processStep (envOf gA gB) (counterAt gA gB n) (Suc n) (prevA gA gB n) (prevB gA gB n))"
  "prevB gA gB (Suc n)
     = nextLabelsB (processStep (envOf gA gB) (counterAt gA gB n) (Suc n) (prevA gA gB n) (prevB gA gB n))"
  "counterAt gA gB (Suc n)
     = globalLabelCounter (processStep (envOf gA gB) (counterAt gA gB n) (Suc n) (prevA gA gB n) (prevB gA gB n))"
  by (simp_all add: counterAt_def prevA_def prevB_def nextState_def stepRes_def)

lemma state_0:
  "prevA gA gB 0 = applyInitialLabels (snd (initedOf gA gB)) (nodes gA)"
  "prevB gA gB 0 = applyInitialLabels (snd (initedOf gA gB)) (nodes gB)"
  "counterAt gA gB 0 = length (sortedInitOf gA gB)"
  by (simp_all add: counterAt_def prevA_def prevB_def state0_def initedOf_eq)

lemma env_fields [simp]:
  "sortedInitLabels (envOf gA gB) = sortedInitOf gA gB"
  "initLabelMap (envOf gA gB) = zip (sortedInitOf gA gB) (freshLabels 0 (length (sortedInitOf gA gB)))"
  "adjA (envOf gA gB) = getAdjacencyList (nodes gA) (links gA)"
  "adjB (envOf gA gB) = getAdjacencyList (nodes gB) (links gB)"
  by (simp_all add: envOf_def initedOf_eq)

lemma getStr_zip_nth:
  "distinct xs \<Longrightarrow> length ys = length xs \<Longrightarrow> i < length xs \<Longrightarrow> getStr (zip xs ys) (xs ! i) = ys ! i"
  by (simp add: getStr_def map_of_zip_nth)

lemma map_getStr_zip:
  "distinct xs \<Longrightarrow> length ys = length xs \<Longrightarrow> map (getStr (zip xs ys)) xs = ys"
  by (rule nth_equalityI) (simp_all add: getStr_zip_nth)

lemma mappings_step:
  "mappings (step (processStep env c k pA pB)) = ms_mappingList (mintedOf env c k pA pB)"
  "globalLabelCounter (processStep env c k pA pB) = ms_counter (mintedOf env c k pA pB)"
  by (simp_all add: processStep_mapped Let_def)

lemma hm_label_toMapping [simp]: "hm_label (toMapping p) = snd p" "hm_signature (toMapping p) = fst p"
  by (simp_all add: toMapping_def)

lemma labels_step_0:
  "map hm_label (mappings (stepAt gA gB 0)) = freshLabels 0 (counterAt gA gB 0)"
  unfolding stepAt_0 mappings_step
  by (simp add: mintedOf_0 distinct_sortedInitOf o_def state_0 map_getStr_zip)

lemma labels_step_Suc:
  "map hm_label (mappings (stepAt gA gB (Suc n)))
   = freshLabels (counterAt gA gB n) (length (uniqueSigs (envOf gA gB) (Suc n) (prevA gA gB n) (prevB gA gB n)))"
  unfolding stepAt_Suc mappings_step
  by (simp add: mintedOf_pos o_def)

lemma counterAt_Suc:
  "counterAt gA gB (Suc n)
   = counterAt gA gB n + length (uniqueSigs (envOf gA gB) (Suc n) (prevA gA gB n) (prevB gA gB n))"
  unfolding state_Suc mappings_step by (simp add: mintedOf_pos)

lemma freshLabels_add: "freshLabels 0 (a + b) = freshLabels 0 a @ freshLabels a b"
proof -
  have h: "[Suc 0..<Suc a + b] = [Suc 0..<Suc a] @ [Suc a..<Suc a + b]"
    by (rule upt_add_eq_append) simp
  have e: "Suc 0 + (a + b) = Suc a + b" "Suc 0 + a = Suc a" by simp_all
  show ?thesis unfolding freshLabels_def e h map_append ..
qed

lemma allLabels_upto:
  "allLabels (map (stepAt gA gB) [0..<Suc n]) = freshLabels 0 (counterAt gA gB n)"
proof (induction n)
  case 0
  show ?case by (simp add: allLabels_def labels_step_0)
next
  case (Suc n)
  have "allLabels (map (stepAt gA gB) [0..<Suc (Suc n)])
        = allLabels (map (stepAt gA gB) [0..<Suc n]) @ map hm_label (mappings (stepAt gA gB (Suc n)))"
    by (simp add: allLabels_def)
  then show ?case
    unfolding Suc labels_step_Suc counterAt_Suc by (simp add: freshLabels_add)
qed

section \<open>Labels from step to step\<close>

subsection \<open>The labels a step reads are the labels of the step before\<close>

lemma map_of_fold_update:
  "map_of (fold (\<lambda>i m. AList.update (f i) (g i) m) xs acc)
   = map_of acc ++ map_of (rev (map (\<lambda>i. (f i, g i)) xs))"
proof (induction xs arbitrary: acc)
  case Nil
  show ?case by simp
next
  case (Cons x xs)
  show ?case unfolding fold_simps Cons.IH
    by (simp add: update_conv' map_add_upd_left fun_eq_iff map_add_def split: option.splits)
qed

lemma map_of_fold_update_distinct:
  assumes "distinct (map f xs)"
  shows "map_of (fold (\<lambda>i m. AList.update (f i) (g i) m) xs []) = map_of (map (\<lambda>i. (f i, g i)) xs)"
proof -
  have "distinct (map fst (map (\<lambda>i. (f i, g i)) xs))" using assms by (simp add: o_def)
  then have "map_of (rev (map (\<lambda>i. (f i, g i)) xs)) = map_of (map (\<lambda>i. (f i, g i)) xs)"
    by (subst map_of_inject_set) (simp_all add: rev_map [symmetric] del: rev_map)
  then show ?thesis by (simp add: map_of_fold_update del: rev_map)
qed

lemma map_of_fold_update_map_option:
  "map_of (fold (\<lambda>i m. AList.update (f i) (h (g i)) m) xs []) k
   = map_option h (map_of (fold (\<lambda>i m. AList.update (f i) (g i) m) xs []) k)"
proof -
  have "map (\<lambda>i. (f i, h (g i))) xs = map (\<lambda>(k, v). (k, h v)) (map (\<lambda>i. (f i, g i)) xs)"
    by simp
  then have "rev (map (\<lambda>i. (f i, h (g i))) xs) = map (\<lambda>(k, v). (k, h v)) (rev (map (\<lambda>i. (f i, g i)) xs))"
    by (simp only: rev_map)
  then show ?thesis
    unfolding map_of_fold_update by (simp add: map_of_map del: rev_map)
qed

lemma nd_label_nodeDataOf [simp]: "nd_label (nodeDataOf M i) = getStr M (sig_signature i)"
  by (simp add: nodeDataOf_def)

lemma next_labels_are_step_labels:
  "map_of (nextLabelsA (processStep env c k pA pB)) i = labelOf (nodeDataA (step (processStep env c k pA pB))) i"
  "map_of (nextLabelsB (processStep env c k pA pB)) i = labelOf (nodeDataB (step (processStep env c k pA pB))) i"
  unfolding processStep_mapped Let_def labelOf_def
  by (simp_all add: map_of_fold_update_map_option [where h = nd_label, simplified, symmetric])

lemma getStr_zip_mem:
  assumes "distinct us" "length ls = length us" "s \<in> set us"
  shows "getStr (zip us ls) s \<in> set ls"
proof -
  from assms(3) obtain i where "i < length us" "us ! i = s" by (auto simp: in_set_conv_nth)
  with getStr_zip_nth [OF assms(1,2), of i] assms(2) show ?thesis by auto
qed

lemma getStr_zip_inj:
  assumes "distinct us" "distinct ls" "length ls = length us" "s \<in> set us" "t \<in> set us"
    and "getStr (zip us ls) s = getStr (zip us ls) t"
  shows "s = t"
proof -
  from assms(4) obtain i where i: "i < length us" "us ! i = s" by (auto simp: in_set_conv_nth)
  from assms(5) obtain j where j: "j < length us" "us ! j = t" by (auto simp: in_set_conv_nth)
  from getStr_zip_nth [OF assms(1,3) i(1)] getStr_zip_nth [OF assms(1,3) j(1)] assms(6) i j
  have "ls ! i = ls ! j" by simp
  with assms(2,3) i(1) j(1) have "i = j" by (simp add: nth_eq_iff_index_eq)
  with i j show ?thesis by simp
qed

lemma map_of_map_key:
  assumes "\<And>v w. f v = f w \<Longrightarrow> v = w"
  shows "map_of (map (\<lambda>v. (f v, g v)) vs) (f v) = (if v \<in> set vs then Some (g v) else None)"
  using assms by (induction vs) auto

lemma getStr_bracketed:
  "v \<in> set vs \<Longrightarrow> getStr (map (\<lambda>v. (bracketed v, g v)) vs) (bracketed v) = g v"
  using map_of_map_key [of bracketed g vs v] bracketed_inj by (simp add: getStr_def)

lemma sig_signature_nodeSig_0:
  "sig_signature (nodeSig 0 adj prev g n) = bracketed (originalLabel n)"
  by (simp add: nodeSig_def bracketed_def)

lemma stepMapping_0:
  "ms_stepMapping (mintedOf (envOf gA gB) c 0 pA pB)
   = map (\<lambda>v. (bracketed v, getStr (initLabelMap (envOf gA gB)) v)) (sortedInitOf gA gB)"
  using mintedOf_0 [of "envOf gA gB" c pA pB] distinct_sortedInitOf [of gA gB] by simp

lemma step0_label:
  assumes "n \<in> set (nodes gA) \<union> set (nodes gB)"
  shows "getStr (ms_stepMapping (mintedOf (envOf gA gB) c 0 pA pB)) (sig_signature (nodeSig 0 adj prev g n))
         = getStr (initLabelMap (envOf gA gB)) (originalLabel n)"
proof -
  from assms have "originalLabel n \<in> set (sortedInitOf gA gB)" by (auto simp: set_sortedInitOf)
  then show ?thesis unfolding stepMapping_0 sig_signature_nodeSig_0 by (rule getStr_bracketed)
qed

lemma fold_update_cong:
  assumes "\<And>x. x \<in> set xs \<Longrightarrow> f x = f' x \<and> g x = g' x"
  shows "fold (\<lambda>i m. AList.update (f i) (g i) m) xs acc = fold (\<lambda>i m. AList.update (f' i) (g' i) m) xs acc"
  using assms by (induction xs arbitrary: acc) simp_all

lemma step0_labels:
  "labelOf (nodeDataA (step (processStep (envOf gA gB) c 0 pA pB))) i
     = map_of (applyInitialLabels (initLabelMap (envOf gA gB)) (nodes gA)) i"
  "labelOf (nodeDataB (step (processStep (envOf gA gB) c 0 pA pB))) i
     = map_of (applyInitialLabels (initLabelMap (envOf gA gB)) (nodes gB)) i"
proof -
  let ?env = "envOf gA gB"
  let ?M = "ms_stepMapping (mintedOf ?env c 0 pA pB)"
  have A: "fold (\<lambda>n m. AList.update (node_id n) (getStr (initLabelMap ?env) (originalLabel n)) m) (nodes gA) []
         = fold (\<lambda>n m. AList.update (sig_id (nodeSig 0 (adjA ?env) pA GraphA n))
              (nd_label (nodeDataOf ?M (nodeSig 0 (adjA ?env) pA GraphA n))) m) (nodes gA) []"
    by (rule fold_update_cong) (simp add: sig_id_nodeSig step0_label del: env_fields)
  have B: "fold (\<lambda>n m. AList.update (node_id n) (getStr (initLabelMap ?env) (originalLabel n)) m) (nodes gB) []
         = fold (\<lambda>n m. AList.update (sig_id (nodeSig 0 (adjB ?env) pB GraphB n))
              (nd_label (nodeDataOf ?M (nodeSig 0 (adjB ?env) pB GraphB n))) m) (nodes gB) []"
    by (rule fold_update_cong) (simp add: sig_id_nodeSig step0_label del: env_fields)
  show "labelOf (nodeDataA (step (processStep ?env c 0 pA pB))) i
     = map_of (applyInitialLabels (initLabelMap ?env) (nodes gA)) i"
    unfolding processStep_mapped Let_def labelOf_def applyInitialLabels_def A
    by (simp add: sigsA_def fold_map o_def
        map_of_fold_update_map_option [where h = nd_label, symmetric] del: env_fields nd_label_nodeDataOf)
  show "labelOf (nodeDataB (step (processStep ?env c 0 pA pB))) i
     = map_of (applyInitialLabels (initLabelMap ?env) (nodes gB)) i"
    unfolding processStep_mapped Let_def labelOf_def applyInitialLabels_def B
    by (simp add: sigsB_def fold_map o_def
        map_of_fold_update_map_option [where h = nd_label, symmetric] del: env_fields nd_label_nodeDataOf)
qed

lemma initial_labels_are_step0_labels:
  "map_of (prevA gA gB 0) i = labelOf (nodeDataA (stepAt gA gB 0)) i"
  "map_of (prevB gA gB 0) i = labelOf (nodeDataB (stepAt gA gB 0)) i"
  unfolding stepAt_0 step0_labels by (simp_all add: state_0 envOf_def)

lemma prev_labels_are_step_labels:
  "map_of (prevA gA gB n) i = labelOf (nodeDataA (stepAt gA gB n)) i"
  "map_of (prevB gA gB n) i = labelOf (nodeDataB (stepAt gA gB n)) i"
  by (cases n; simp add: initial_labels_are_step0_labels state_Suc stepAt_Suc next_labels_are_step_labels)+

subsection \<open>Every label is a counter value\<close>

lemma set_update_subset: "set (AList.update k v al) \<subseteq> insert (k, v) (set al)"
  by (induction al) auto

lemma values_fold_update:
  "snd ` set (fold (\<lambda>i m. AList.update (f i) (g i) m) xs acc) \<subseteq> snd ` set acc \<union> g ` set xs"
proof (induction xs arbitrary: acc)
  case Nil
  show ?case by simp
next
  case (Cons x xs)
  have "snd ` set (AList.update (f x) (g x) acc) \<subseteq> insert (g x) (snd ` set acc)"
    using set_update_subset [of "f x" "g x" acc] by auto
  with Cons [of "AList.update (f x) (g x) acc"] show ?case by auto
qed

lemma freshLabels_subset: "set (freshLabels c n) \<subseteq> set (freshLabels 0 (c + n))"
  by (simp add: freshLabels_add)

lemma freshLabels_range: "set (freshLabels c n) \<subseteq> range toString_nat"
  by (auto simp: freshLabels_def)

lemma sig_in_uniqueSigs:
  "x \<in> set (sigsA env k pA) \<Longrightarrow> sig_signature x \<in> set (uniqueSigs env k pA pB)"
  "y \<in> set (sigsB env k pB) \<Longrightarrow> sig_signature y \<in> set (uniqueSigs env k pA pB)"
  by (simp_all add: set_uniqueSigs)

lemma stepMapping_pos:
  "0 < k \<Longrightarrow> ms_stepMapping (mintedOf env c k pA pB)
     = zip (uniqueSigs env k pA pB) (freshLabels c (length (uniqueSigs env k pA pB)))"
  by (simp add: mintedOf_pos)

lemma label_fresh:
  assumes "0 < k" "s \<in> set (uniqueSigs env k pA pB)"
  shows "getStr (ms_stepMapping (mintedOf env c k pA pB)) s
         \<in> set (freshLabels c (length (uniqueSigs env k pA pB)))"
  unfolding stepMapping_pos [OF assms(1)]
  by (rule getStr_zip_mem) (simp_all add: distinct_uniqueSigs assms(2))

lemma label_inj:
  assumes "0 < k" "s \<in> set (uniqueSigs env k pA pB)" "t \<in> set (uniqueSigs env k pA pB)"
    and "getStr (ms_stepMapping (mintedOf env c k pA pB)) s = getStr (ms_stepMapping (mintedOf env c k pA pB)) t"
  shows "s = t"
  using assms(4) unfolding stepMapping_pos [OF assms(1)]
  by (rule getStr_zip_inj [rotated 5]) (simp_all add: distinct_uniqueSigs distinct_freshLabels assms(2,3))

lemma prev_keys:
  "fst ` set (prevA gA gB n) = node_id ` set (nodes gA)"
  "fst ` set (prevB gA gB n) = node_id ` set (nodes gB)"
proof -
  show "fst ` set (prevA gA gB n) = node_id ` set (nodes gA)"
    by (cases n) (simp_all add: state_0 state_Suc applyInitialLabels_def keys_fold_update
        processStep_mapped Let_def sigsA_def image_image sig_id_nodeSig)
  show "fst ` set (prevB gA gB n) = node_id ` set (nodes gB)"
    by (cases n) (simp_all add: state_0 state_Suc applyInitialLabels_def keys_fold_update
        processStep_mapped Let_def sigsB_def image_image sig_id_nodeSig)
qed

lemma nextLabels_eq:
  "nextLabelsA (processStep env c k pA pB)
   = fold (\<lambda>i m. AList.update (sig_id i) (getStr (ms_stepMapping (mintedOf env c k pA pB)) (sig_signature i)) m)
       (sigsA env k pA) []"
  "nextLabelsB (processStep env c k pA pB)
   = fold (\<lambda>i m. AList.update (sig_id i) (getStr (ms_stepMapping (mintedOf env c k pA pB)) (sig_signature i)) m)
       (sigsB env k pB) []"
  by (simp_all add: processStep_mapped Let_def)

lemma initial_values:
  assumes "set ns \<subseteq> set (nodes gA) \<union> set (nodes gB)"
  shows "snd ` set (applyInitialLabels (snd (initedOf gA gB)) ns)
         \<subseteq> set (freshLabels 0 (length (sortedInitOf gA gB)))"
proof -
  let ?vs = "sortedInitOf gA gB"
  let ?ilm = "zip ?vs (freshLabels 0 (length ?vs))"
  have "getStr ?ilm (originalLabel m) \<in> set (freshLabels 0 (length ?vs))" if "m \<in> set ns" for m
  proof (rule getStr_zip_mem)
    show "distinct ?vs" by (rule distinct_sortedInitOf)
    show "length (freshLabels 0 (length ?vs)) = length ?vs" by simp
    from that assms show "originalLabel m \<in> set ?vs" unfolding set_sortedInitOf by blast
  qed
  then have "(\<lambda>m. getStr ?ilm (originalLabel m)) ` set ns \<subseteq> set (freshLabels 0 (length ?vs))"
    by (rule image_subsetI)
  moreover have "snd ` set (applyInitialLabels ?ilm ns) \<subseteq> (\<lambda>m. getStr ?ilm (originalLabel m)) ` set ns"
    unfolding applyInitialLabels_def
    using values_fold_update [of node_id "\<lambda>m. getStr ?ilm (originalLabel m)" ns "[]"] by simp
  ultimately show ?thesis unfolding initedOf_eq snd_conv by (rule subset_trans [rotated])
qed

lemma next_values:
  assumes "set xs \<subseteq> set (sigsA env (Suc k) pA) \<union> set (sigsB env (Suc k) pB)"
  shows "snd ` set (fold (\<lambda>i m. AList.update (sig_id i)
            (getStr (ms_stepMapping (mintedOf env c (Suc k) pA pB)) (sig_signature i)) m) xs [])
         \<subseteq> set (freshLabels 0 (c + length (uniqueSigs env (Suc k) pA pB)))"
proof -
  let ?M = "ms_stepMapping (mintedOf env c (Suc k) pA pB)"
  have "getStr ?M (sig_signature x) \<in> set (freshLabels 0 (c + length (uniqueSigs env (Suc k) pA pB)))"
    if "x \<in> set xs" for x
  proof -
    from that assms have "sig_signature x \<in> set (uniqueSigs env (Suc k) pA pB)"
      unfolding set_uniqueSigs by blast
    then have "getStr ?M (sig_signature x) \<in> set (freshLabels c (length (uniqueSigs env (Suc k) pA pB)))"
      by (rule label_fresh [rotated]) simp
    with freshLabels_subset show ?thesis by blast
  qed
  then have "(\<lambda>i. getStr ?M (sig_signature i)) ` set xs
             \<subseteq> set (freshLabels 0 (c + length (uniqueSigs env (Suc k) pA pB)))"
    by (rule image_subsetI)
  moreover have "snd ` set (fold (\<lambda>i m. AList.update (sig_id i) (getStr ?M (sig_signature i)) m) xs [])
        \<subseteq> (\<lambda>i. getStr ?M (sig_signature i)) ` set xs"
    using values_fold_update [of sig_id "\<lambda>i. getStr ?M (sig_signature i)" xs "[]"] by simp
  ultimately show ?thesis by (rule subset_trans [rotated])
qed

lemma prev_values:
  "snd ` set (prevA gA gB n) \<subseteq> set (freshLabels 0 (counterAt gA gB n))"
  "snd ` set (prevB gA gB n) \<subseteq> set (freshLabels 0 (counterAt gA gB n))"
proof -
  show "snd ` set (prevA gA gB n) \<subseteq> set (freshLabels 0 (counterAt gA gB n))"
  proof (cases n)
    case 0
    show ?thesis unfolding 0 state_0 by (rule initial_values) simp
  next
    case (Suc m)
    show ?thesis unfolding Suc state_Suc(1) counterAt_Suc nextLabels_eq by (rule next_values) simp
  qed
  show "snd ` set (prevB gA gB n) \<subseteq> set (freshLabels 0 (counterAt gA gB n))"
  proof (cases n)
    case 0
    show ?thesis unfolding 0 state_0 by (rule initial_values) simp
  next
    case (Suc m)
    show ?thesis unfolding Suc state_Suc(2) counterAt_Suc nextLabels_eq by (rule next_values) simp
  qed
qed

lemma prev_label_canonical:
  assumes "i \<in> node_id ` set (nodes gA)"
  shows "\<exists>m. map_of (prevA gA gB n) i = Some (toString_nat m) \<and> getStr (prevA gA gB n) i = toString_nat m"
proof -
  from assms have "i \<in> fst ` set (prevA gA gB n)" by (simp add: prev_keys)
  then obtain v where v: "map_of (prevA gA gB n) i = Some v"
    by (metis map_of_eq_None_iff not_Some_eq)
  then have "v \<in> snd ` set (prevA gA gB n)" by (metis map_of_SomeD snd_conv image_eqI)
  with prev_values(1) freshLabels_range have "v \<in> range toString_nat" by blast
  with v show ?thesis by (auto simp: getStr_def)
qed

lemma prev_label_canonical_B:
  assumes "i \<in> node_id ` set (nodes gB)"
  shows "\<exists>m. map_of (prevB gA gB n) i = Some (toString_nat m) \<and> getStr (prevB gA gB n) i = toString_nat m"
proof -
  from assms have "i \<in> fst ` set (prevB gA gB n)" by (simp add: prev_keys)
  then obtain v where v: "map_of (prevB gA gB n) i = Some v"
    by (metis map_of_eq_None_iff not_Some_eq)
  then have "v \<in> snd ` set (prevB gA gB n)" by (metis map_of_SomeD snd_conv image_eqI)
  with prev_values(2) freshLabels_range have "v \<in> range toString_nat" by blast
  with v show ?thesis by (auto simp: getStr_def)
qed

subsection \<open>A signature determines the own previous label\<close>

lemma map_of_fold_update_Some:
  assumes "i \<in> f ` set xs"
  shows "\<exists>x \<in> set xs. f x = i \<and> map_of (fold (\<lambda>x m. AList.update (f x) (g x) m) xs []) i = Some (g x)"
proof -
  from assms have "i \<in> fst ` set (rev (map (\<lambda>x. (f x, g x)) xs))" by (simp add: image_image)
  then obtain v where v: "map_of (rev (map (\<lambda>x. (f x, g x)) xs)) i = Some v"
    by (metis map_of_eq_None_iff not_Some_eq)
  then have "(i, v) \<in> set (rev (map (\<lambda>x. (f x, g x)) xs))" by (rule map_of_SomeD)
  then obtain x where "x \<in> set xs" "f x = i" "g x = v" by auto
  with v show ?thesis unfolding map_of_fold_update by auto
qed

lemma self_of_sig:
  assumes "list_all is_digit a" "list_all is_digit b"
    and "CHR ''('' # a @ '',['' @ x = CHR ''('' # b @ '',['' @ y"
  shows "a = b"
proof -
  have nd: "\<not> is_digit CHR '',''" by (simp add: is_digit_def)
  have tw: "takeWhile is_digit (c @ CHR '','' # r) = c" if "list_all is_digit c" for c r
    using that nd by (simp add: takeWhile_append2 list_all_iff)
  from assms(3) have "a @ CHR '','' # (CHR ''['' # x) = b @ CHR '','' # (CHR ''['' # y)" by simp
  then have "takeWhile is_digit (a @ CHR '','' # (CHR ''['' # x))
             = takeWhile is_digit (b @ CHR '','' # (CHR ''['' # y))" by (rule arg_cong)
  then show ?thesis unfolding tw [OF assms(1)] tw [OF assms(2)] .
qed

lemma sig_signature_nodeSig_Suc:
  "\<exists>r. sig_signature (nodeSig (Suc n) adj prev g x) = CHR ''('' # getStr prev (node_id x) @ '',['' @ r"
  by (simp add: nodeSig_def Let_def)

lemma nodeData_eq:
  "nodeDataA (step (processStep env c k pA pB))
   = fold (\<lambda>i m. AList.update (sig_id i) (nodeDataOf (ms_stepMapping (mintedOf env c k pA pB)) i) m)
       (sigsA env k pA) []"
  "nodeDataB (step (processStep env c k pA pB))
   = fold (\<lambda>i m. AList.update (sig_id i) (nodeDataOf (ms_stepMapping (mintedOf env c k pA pB)) i) m)
       (sigsB env k pB) []"
  by (simp_all add: processStep_mapped Let_def)

lemma nodeData_entry:
  assumes "i \<in> node_id ` set (nodes (graphA env))"
  shows "\<exists>x \<in> set (nodes (graphA env)). node_id x = i \<and>
           map_of (nodeDataA (step (processStep env c k pA pB))) i
             = Some (nodeDataOf (ms_stepMapping (mintedOf env c k pA pB)) (nodeSig k (adjA env) pA GraphA x))"
proof -
  from assms have "i \<in> sig_id ` set (sigsA env k pA)"
    by (simp add: sigsA_def image_image sig_id_nodeSig)
  from map_of_fold_update_Some [OF this, of "nodeDataOf (ms_stepMapping (mintedOf env c k pA pB))"]
  show ?thesis unfolding nodeData_eq by (auto simp: sigsA_def sig_id_nodeSig)
qed

lemma nodeData_entry_B:
  assumes "i \<in> node_id ` set (nodes (graphB env))"
  shows "\<exists>x \<in> set (nodes (graphB env)). node_id x = i \<and>
           map_of (nodeDataB (step (processStep env c k pA pB))) i
             = Some (nodeDataOf (ms_stepMapping (mintedOf env c k pA pB)) (nodeSig k (adjB env) pB GraphB x))"
proof -
  from assms have "i \<in> sig_id ` set (sigsB env k pB)"
    by (simp add: sigsB_def image_image sig_id_nodeSig)
  from map_of_fold_update_Some [OF this, of "nodeDataOf (ms_stepMapping (mintedOf env c k pA pB))"]
  show ?thesis unfolding nodeData_eq by (auto simp: sigsB_def sig_id_nodeSig)
qed

lemma nodeLabel_Suc:
  assumes "isNode gA gB g i"
  shows "\<exists>s r. s \<in> set (uniqueSigs (envOf gA gB) (Suc n) (prevA gA gB n) (prevB gA gB n)) \<and>
           nodeLabel (stepAt gA gB (Suc n)) g i
             = Some (getStr (ms_stepMapping (mintedOf (envOf gA gB) (counterAt gA gB n) (Suc n)
                        (prevA gA gB n) (prevB gA gB n))) s) \<and>
           s = CHR ''('' # getStr (prevOf gA gB n g) i @ '',['' @ r"
proof (cases g)
  case GraphA
  let ?env = "envOf gA gB"
  from assms GraphA have "i \<in> node_id ` set (nodes (graphA ?env))" by (simp add: isNode_def)
  from nodeData_entry [OF this, of "counterAt gA gB n" "Suc n" "prevA gA gB n" "prevB gA gB n"]
  obtain x where x: "x \<in> set (nodes gA)" "node_id x = i"
    "map_of (nodeDataA (stepAt gA gB (Suc n))) i
       = Some (nodeDataOf (ms_stepMapping (mintedOf ?env (counterAt gA gB n) (Suc n) (prevA gA gB n) (prevB gA gB n)))
                 (nodeSig (Suc n) (adjA ?env) (prevA gA gB n) GraphA x))"
    unfolding stepAt_Suc by auto
  let ?s = "sig_signature (nodeSig (Suc n) (adjA ?env) (prevA gA gB n) GraphA x)"
  have "?s \<in> set (uniqueSigs ?env (Suc n) (prevA gA gB n) (prevB gA gB n))"
    by (rule sig_in_uniqueSigs) (simp add: sigsA_def x(1))
  moreover obtain r where "?s = CHR ''('' # getStr (prevOf gA gB n g) i @ '',['' @ r"
    using sig_signature_nodeSig_Suc [of n "adjA ?env" "prevA gA gB n" GraphA x] x(2) GraphA
    by (auto simp: prevOf_def)
  moreover have "nodeLabel (stepAt gA gB (Suc n)) g i
     = Some (getStr (ms_stepMapping (mintedOf ?env (counterAt gA gB n) (Suc n) (prevA gA gB n) (prevB gA gB n))) ?s)"
    by (simp add: nodeLabel_def labelOf_def GraphA x(3) del: env_fields)
  ultimately show ?thesis by blast
next
  case GraphB
  let ?env = "envOf gA gB"
  from assms GraphB have "i \<in> node_id ` set (nodes (graphB ?env))" by (simp add: isNode_def)
  from nodeData_entry_B [OF this, of "counterAt gA gB n" "Suc n" "prevA gA gB n" "prevB gA gB n"]
  obtain x where x: "x \<in> set (nodes gB)" "node_id x = i"
    "map_of (nodeDataB (stepAt gA gB (Suc n))) i
       = Some (nodeDataOf (ms_stepMapping (mintedOf ?env (counterAt gA gB n) (Suc n) (prevA gA gB n) (prevB gA gB n)))
                 (nodeSig (Suc n) (adjB ?env) (prevB gA gB n) GraphB x))"
    unfolding stepAt_Suc by auto
  let ?s = "sig_signature (nodeSig (Suc n) (adjB ?env) (prevB gA gB n) GraphB x)"
  have "?s \<in> set (uniqueSigs ?env (Suc n) (prevA gA gB n) (prevB gA gB n))"
    by (rule sig_in_uniqueSigs) (simp add: sigsB_def x(1))
  moreover obtain r where "?s = CHR ''('' # getStr (prevOf gA gB n g) i @ '',['' @ r"
    using sig_signature_nodeSig_Suc [of n "adjB ?env" "prevB gA gB n" GraphB x] x(2) GraphB
    by (auto simp: prevOf_def)
  moreover have "nodeLabel (stepAt gA gB (Suc n)) g i
     = Some (getStr (ms_stepMapping (mintedOf ?env (counterAt gA gB n) (Suc n) (prevA gA gB n) (prevB gA gB n))) ?s)"
    by (simp add: nodeLabel_def labelOf_def GraphB x(3) del: env_fields)
  ultimately show ?thesis by blast
qed

lemma nodeLabel_prev: "nodeLabel (stepAt gA gB n) g i = map_of (prevOf gA gB n g) i"
  by (cases g) (simp_all add: nodeLabel_def prevOf_def prev_labels_are_step_labels)

lemma prevOf_canonical:
  assumes "isNode gA gB g i"
  shows "\<exists>m. map_of (prevOf gA gB n g) i = Some (toString_nat m) \<and> getStr (prevOf gA gB n g) i = toString_nat m"
  using assms prev_label_canonical [of i gA gB n] prev_label_canonical_B [of i gB gA n]
  by (cases g) (simp_all add: isNode_def prevOf_def)

lemma step_refines:
  assumes "isNode gA gB g i" "isNode gA gB h j"
    and "nodeLabel (stepAt gA gB (Suc n)) g i = nodeLabel (stepAt gA gB (Suc n)) h j"
  shows "nodeLabel (stepAt gA gB n) g i = nodeLabel (stepAt gA gB n) h j"
proof -
  let ?us = "uniqueSigs (envOf gA gB) (Suc n) (prevA gA gB n) (prevB gA gB n)"
  let ?M = "ms_stepMapping (mintedOf (envOf gA gB) (counterAt gA gB n) (Suc n) (prevA gA gB n) (prevB gA gB n))"
  from nodeLabel_Suc [OF assms(1), of n] obtain s r where
    s: "s \<in> set ?us" "nodeLabel (stepAt gA gB (Suc n)) g i = Some (getStr ?M s)"
       "s = CHR ''('' # getStr (prevOf gA gB n g) i @ '',['' @ r" by blast
  from nodeLabel_Suc [OF assms(2), of n] obtain t r' where
    t: "t \<in> set ?us" "nodeLabel (stepAt gA gB (Suc n)) h j = Some (getStr ?M t)"
       "t = CHR ''('' # getStr (prevOf gA gB n h) j @ '',['' @ r'" by blast
  from prevOf_canonical [OF assms(1), of n] obtain m where
    m: "map_of (prevOf gA gB n g) i = Some (toString_nat m)" "getStr (prevOf gA gB n g) i = toString_nat m"
    by blast
  from prevOf_canonical [OF assms(2), of n] obtain m' where
    m': "map_of (prevOf gA gB n h) j = Some (toString_nat m')" "getStr (prevOf gA gB n h) j = toString_nat m'"
    by blast
  from assms(3) s(2) t(2) have "getStr ?M s = getStr ?M t" by simp
  then have "s = t" by (rule label_inj [rotated 3]) (simp_all add: s(1) t(1))
  then have "CHR ''('' # toString_nat m @ '',['' @ r = CHR ''('' # toString_nat m' @ '',['' @ r'"
    using s(3) t(3) m(2) m'(2) by simp
  then have "toString_nat m = toString_nat m'"
    by (rule self_of_sig [rotated 2]) (rule toString_nat_digits)+
  then show ?thesis unfolding nodeLabel_prev m(1) m'(1) by simp
qed

lemma refinement_chain:
  assumes "isNode gA gB g i" "isNode gA gB h j"
    and "nodeLabel (stepAt gA gB (k + d)) g i = nodeLabel (stepAt gA gB (k + d)) h j"
  shows "nodeLabel (stepAt gA gB k) g i = nodeLabel (stepAt gA gB k) h j"
  using assms(3)
proof (induction d)
  case 0
  then show ?case by simp
next
  case (Suc d)
  from Suc.prems have "nodeLabel (stepAt gA gB (Suc (k + d))) g i = nodeLabel (stepAt gA gB (Suc (k + d))) h j"
    by simp
  from step_refines [OF assms(1,2) this] show ?case by (rule Suc.IH)
qed

subsection \<open>Refinement never merges\<close>

text \<open>
  Claim C5. A node is a graph tag with a node id of that graph; its label in a step is the
  label of its entry in the step's node map. For two nodes, in the same graph or in
  different graphs, and two steps \<open>k < k'\<close> of the returned sequence: if the nodes have
  different labels at step \<open>k\<close>, they have different labels at step \<open>k'\<close>.
\<close>

theorem C5_never_merge:
  assumes "k < k'" "k' < length (steps (runWLAlgorithm gA gB maxK))"
    and "isNode gA gB g i" "isNode gA gB h j"
    and "nodeLabel (steps (runWLAlgorithm gA gB maxK) ! k) g i \<noteq> nodeLabel (steps (runWLAlgorithm gA gB maxK) ! k) h j"
  shows "nodeLabel (steps (runWLAlgorithm gA gB maxK) ! k') g i \<noteq> nodeLabel (steps (runWLAlgorithm gA gB maxK) ! k') h j"
proof -
  from assms(1,2) have le: "k' \<le> nat maxK" "k \<le> nat maxK" by (simp_all add: length_steps)
  from assms(1) obtain d where d: "k' = k + d" using less_imp_add_positive by blast
  from assms(5) have "nodeLabel (stepAt gA gB k) g i \<noteq> nodeLabel (stepAt gA gB k) h j"
    by (simp add: nth_steps le)
  with refinement_chain [OF assms(3,4), of k d]
  have "nodeLabel (stepAt gA gB k') g i \<noteq> nodeLabel (stepAt gA gB k') h j"
    unfolding d by blast
  then show ?thesis by (simp add: nth_steps le)
qed

theorem C5_never_merge_witness:
  "isNode (oneNode ''a'' 1) (oneNode ''b'' 2) GraphA ''a'' \<and>
   isNode (oneNode ''a'' 1) (oneNode ''b'' 2) GraphB ''b'' \<and>
   nodeLabel (steps (runWLAlgorithm (oneNode ''a'' 1) (oneNode ''b'' 2) 1) ! 0) GraphA ''a'' = Some ''1'' \<and>
   nodeLabel (steps (runWLAlgorithm (oneNode ''a'' 1) (oneNode ''b'' 2) 1) ! 0) GraphB ''b'' = Some ''2'' \<and>
   nodeLabel (steps (runWLAlgorithm (oneNode ''a'' 1) (oneNode ''b'' 2) 1) ! 1) GraphA ''a''
     \<noteq> nodeLabel (steps (runWLAlgorithm (oneNode ''a'' 1) (oneNode ''b'' 2) 1) ! 1) GraphB ''b''"
proof -
  let ?ss = "steps (runWLAlgorithm (oneNode ''a'' 1) (oneNode ''b'' 2) 1)"
  have a: "isNode (oneNode ''a'' 1) (oneNode ''b'' 2) GraphA ''a''" by (simp add: isNode_def oneNode_def)
  have b: "isNode (oneNode ''a'' 1) (oneNode ''b'' 2) GraphB ''b''" by (simp add: isNode_def oneNode_def)
  have la: "nodeLabel (?ss ! 0) GraphA ''a'' = Some ''1''" by code_simp
  have lb: "nodeLabel (?ss ! 0) GraphB ''b'' = Some ''2''" by code_simp
  have ne: "nodeLabel (?ss ! 0) GraphA ''a'' \<noteq> nodeLabel (?ss ! 0) GraphB ''b''"
    unfolding la lb by simp
  have k: "(0::nat) < 1" by simp
  have l: "1 < length ?ss" by (simp add: length_steps)
  from C5_never_merge [OF k l a b ne] a b la lb show ?thesis by blast
qed

section \<open>The signature of a node and the pool of a step\<close>

lemma isNode_graphFor: "isNode gA gB g i \<longleftrightarrow> i \<in> node_id ` set (nodes (graphFor gA gB g))"
  by (simp add: isNode_def graphFor_def)

lemma nodeData_entry_tag:
  assumes "isNode gA gB g i"
  shows "\<exists>x \<in> set (nodes (graphFor gA gB g)). node_id x = i \<and>
           map_of (nodeDataFor (stepAt gA gB (Suc n)) g) i
             = Some (nodeDataOf (ms_stepMapping (mintedOf (envOf gA gB) (counterAt gA gB n) (Suc n)
                                   (prevA gA gB n) (prevB gA gB n)))
                      (nodeSig (Suc n) (getAdjacencyList (nodes (graphFor gA gB g)) (links (graphFor gA gB g)))
                         (prevOf gA gB n g) g x))"
proof (cases g)
  case GraphA
  from assms GraphA have "i \<in> node_id ` set (nodes (graphA (envOf gA gB)))" by (simp add: isNode_def)
  from nodeData_entry [OF this, of "counterAt gA gB n" "Suc n" "prevA gA gB n" "prevB gA gB n"]
  show ?thesis unfolding stepAt_Suc by (simp add: GraphA graphFor_def nodeDataFor_def prevOf_def)
next
  case GraphB
  from assms GraphB have "i \<in> node_id ` set (nodes (graphB (envOf gA gB)))" by (simp add: isNode_def)
  from nodeData_entry_B [OF this, of "counterAt gA gB n" "Suc n" "prevA gA gB n" "prevB gA gB n"]
  show ?thesis unfolding stepAt_Suc by (simp add: GraphB graphFor_def nodeDataFor_def prevOf_def)
qed

lemma linkNeighbors_are_nodes: "set (linkNeighbors g i) \<subseteq> node_id ` set (nodes g)"
  by (auto simp: linkNeighbors_def knownLink_def split: if_splits)

lemma getStr_zip_pair:
  assumes "distinct us" "length ls = length us" "s \<in> set us"
  shows "(s, getStr (zip us ls) s) \<in> set (zip us ls)"
proof -
  from assms(3) obtain i where i: "i < length us" "us ! i = s" by (auto simp: in_set_conv_nth)
  from getStr_zip_nth [OF assms(1,2) i(1)] i assms(2) show ?thesis
    by (auto simp: in_set_zip intro!: exI [of _ i])
qed

lemma prevOf_Some:
  assumes "isNode gA gB g j"
  shows "nodeLabel (stepAt gA gB n) g j = Some (getStr (prevOf gA gB n g) j)"
  using prevOf_canonical [OF assms, of n] by (auto simp: nodeLabel_prev)

lemma node_signature_built:
  assumes "isNode gA gB g i"
  shows "\<exists>d. map_of (nodeDataFor (stepAt gA gB (Suc n)) g) i = Some d \<and>
           nodeLabel (stepAt gA gB n) g i = Some (self (nd_expandedSignature d)) \<and>
           image_mset Some (mset (neighbors (nd_expandedSignature d)))
             = image_mset (nodeLabel (stepAt gA gB n) g) (mset (linkNeighbors (graphFor gA gB g) i)) \<and>
           sorted (map parseInt (neighbors (nd_expandedSignature d))) \<and>
           nd_signature d = ''('' @ self (nd_expandedSignature d) @ '',[''
                              @ join '','' (neighbors (nd_expandedSignature d)) @ ''])'' \<and>
           (\<exists>m \<in> set (mappings (stepAt gA gB (Suc n))).
              hm_signature m = nd_signature d \<and> hm_label m = nd_label d)"
proof -
  let ?G = "graphFor gA gB g"
  let ?adj = "getAdjacencyList (nodes ?G) (links ?G)"
  let ?prev = "prevOf gA gB n g"
  let ?us = "uniqueSigs (envOf gA gB) (Suc n) (prevA gA gB n) (prevB gA gB n)"
  let ?fl = "freshLabels (counterAt gA gB n) (length ?us)"
  let ?M = "ms_stepMapping (mintedOf (envOf gA gB) (counterAt gA gB n) (Suc n) (prevA gA gB n) (prevB gA gB n))"
  from nodeData_entry_tag [OF assms, of n] obtain x where
    x: "x \<in> set (nodes ?G)" "node_id x = i"
       "map_of (nodeDataFor (stepAt gA gB (Suc n)) g) i = Some (nodeDataOf ?M (nodeSig (Suc n) ?adj ?prev g x))"
    by blast
  let ?item = "nodeSig (Suc n) ?adj ?prev g x"
  let ?d = "nodeDataOf ?M ?item"
  have adj: "map_of ?adj i = Some (linkNeighbors ?G i)"
    using assms by (simp add: map_of_getAdjacencyList isNode_graphFor)
  have nb: "neighbors (nd_expandedSignature ?d) = sort_key parseInt (map (getStr ?prev) (linkNeighbors ?G i))"
    and sf: "self (nd_expandedSignature ?d) = getStr ?prev i"
    and sg: "nd_signature ?d = ''('' @ getStr ?prev i @ '',[''
               @ join '','' (sort_key parseInt (map (getStr ?prev) (linkNeighbors ?G i))) @ ''])''"
    and sg': "nd_signature ?d = sig_signature ?item"
    by (simp_all add: nodeDataOf_def nodeSig_def Let_def x(2) adj)
  have 1: "nodeLabel (stepAt gA gB n) g i = Some (self (nd_expandedSignature ?d))"
    unfolding sf by (rule prevOf_Some [OF assms])
  have nl: "Some (getStr ?prev j) = nodeLabel (stepAt gA gB n) g j" if "j \<in># mset (linkNeighbors ?G i)" for j
  proof -
    from that linkNeighbors_are_nodes have "isNode gA gB g j" unfolding isNode_graphFor by auto
    then show ?thesis by (simp add: prevOf_Some)
  qed
  have "image_mset Some (mset (neighbors (nd_expandedSignature ?d)))
        = image_mset (\<lambda>j. Some (getStr ?prev j)) (mset (linkNeighbors ?G i))"
    unfolding nb by (simp add: multiset.map_comp o_def)
  also have "\<dots> = image_mset (nodeLabel (stepAt gA gB n) g) (mset (linkNeighbors ?G i))"
    by (rule image_mset_cong) (rule nl)
  finally have 2: "image_mset Some (mset (neighbors (nd_expandedSignature ?d)))
             = image_mset (nodeLabel (stepAt gA gB n) g) (mset (linkNeighbors ?G i))" .
  have 3: "sorted (map parseInt (neighbors (nd_expandedSignature ?d)))"
    unfolding nb by simp
  have 4: "nd_signature ?d = ''('' @ self (nd_expandedSignature ?d) @ '',[''
                              @ join '','' (neighbors (nd_expandedSignature ?d)) @ ''])''"
    unfolding sg nb sf ..
  have pool: "sig_signature ?item \<in> set ?us"
    using x(1) by (cases g) (simp_all add: set_uniqueSigs sigsA_def sigsB_def graphFor_def prevOf_def)
  have M: "?M = zip ?us ?fl" by (simp add: stepMapping_pos)
  have "(sig_signature ?item, getStr ?M (sig_signature ?item)) \<in> set (zip ?us ?fl)"
    unfolding M by (rule getStr_zip_pair) (simp_all add: distinct_uniqueSigs pool)
  then have "toMapping (sig_signature ?item, getStr ?M (sig_signature ?item))
             \<in> set (mappings (stepAt gA gB (Suc n)))"
    unfolding stepAt_Suc mappings_step by (simp add: mintedOf_pos)
  then have 5: "\<exists>m \<in> set (mappings (stepAt gA gB (Suc n))).
              hm_signature m = nd_signature ?d \<and> hm_label m = nd_label ?d"
    unfolding sg' by (rule rev_bexI) simp
  from x(3) 1 2 3 4 5 show ?thesis by blast
qed

lemma signatures_step_Suc:
  "map hm_signature (mappings (stepAt gA gB (Suc n)))
   = uniqueSigs (envOf gA gB) (Suc n) (prevA gA gB n) (prevB gA gB n)"
  unfolding stepAt_Suc mappings_step by (simp add: mintedOf_pos o_def)

lemma nodeSig_depends_on_id:
  "node_id x = node_id y \<Longrightarrow> nodeSig (Suc n) adj prev g x = nodeSig (Suc n) adj prev g y"
  by (simp add: nodeSig_def)

lemma nodeData_values:
  "snd ` set (nodeDataA (step (processStep env c k pA pB)))
     \<subseteq> nodeDataOf (ms_stepMapping (mintedOf env c k pA pB)) ` set (sigsA env k pA)"
  "snd ` set (nodeDataB (step (processStep env c k pA pB)))
     \<subseteq> nodeDataOf (ms_stepMapping (mintedOf env c k pA pB)) ` set (sigsB env k pB)"
  unfolding nodeData_eq
  using values_fold_update [of sig_id "nodeDataOf (ms_stepMapping (mintedOf env c k pA pB))" "sigsA env k pA" "[]"]
    values_fold_update [of sig_id "nodeDataOf (ms_stepMapping (mintedOf env c k pA pB))" "sigsB env k pB" "[]"]
  by simp_all

lemma nd_signature_nodeDataOf [simp]: "nd_signature (nodeDataOf M x) = sig_signature x"
  by (simp add: nodeDataOf_def)

lemma pool_is_node_signatures:
  "set (uniqueSigs (envOf gA gB) (Suc n) (prevA gA gB n) (prevB gA gB n))
   = nd_signature ` snd ` (set (nodeDataA (stepAt gA gB (Suc n))) \<union> set (nodeDataB (stepAt gA gB (Suc n))))"
  (is "set ?us = ?R")
proof
  let ?env = "envOf gA gB"
  let ?M = "ms_stepMapping (mintedOf ?env (counterAt gA gB n) (Suc n) (prevA gA gB n) (prevB gA gB n))"
  show "set ?us \<subseteq> ?R"
  proof
    fix s assume "s \<in> set ?us"
    then consider x where "x \<in> set (nodes gA)" "s = sig_signature (nodeSig (Suc n) (adjA ?env) (prevA gA gB n) GraphA x)"
      | x where "x \<in> set (nodes gB)" "s = sig_signature (nodeSig (Suc n) (adjB ?env) (prevB gA gB n) GraphB x)"
      unfolding set_uniqueSigs sigsA_def sigsB_def by auto
    then show "s \<in> ?R"
    proof cases
      case 1
      then have "node_id x \<in> node_id ` set (nodes (graphA ?env))" by simp
      from nodeData_entry [OF this, of "counterAt gA gB n" "Suc n" "prevA gA gB n" "prevB gA gB n"]
      obtain y where y: "node_id y = node_id x"
        "map_of (nodeDataA (stepAt gA gB (Suc n))) (node_id x)
           = Some (nodeDataOf ?M (nodeSig (Suc n) (adjA ?env) (prevA gA gB n) GraphA y))"
        unfolding stepAt_Suc by auto
      from map_of_SomeD [OF y(2)] nodeSig_depends_on_id [OF y(1), of n "adjA ?env" "prevA gA gB n" GraphA]
      have "(node_id x, nodeDataOf ?M (nodeSig (Suc n) (adjA ?env) (prevA gA gB n) GraphA x))
              \<in> set (nodeDataA (stepAt gA gB (Suc n)))" by simp
      then have "nd_signature (snd (node_id x, nodeDataOf ?M (nodeSig (Suc n) (adjA ?env) (prevA gA gB n) GraphA x)))
                   \<in> ?R" by blast
      then show ?thesis by (simp add: 1(2))
    next
      case 2
      then have "node_id x \<in> node_id ` set (nodes (graphB ?env))" by simp
      from nodeData_entry_B [OF this, of "counterAt gA gB n" "Suc n" "prevA gA gB n" "prevB gA gB n"]
      obtain y where y: "node_id y = node_id x"
        "map_of (nodeDataB (stepAt gA gB (Suc n))) (node_id x)
           = Some (nodeDataOf ?M (nodeSig (Suc n) (adjB ?env) (prevB gA gB n) GraphB y))"
        unfolding stepAt_Suc by auto
      from map_of_SomeD [OF y(2)] nodeSig_depends_on_id [OF y(1), of n "adjB ?env" "prevB gA gB n" GraphB]
      have "(node_id x, nodeDataOf ?M (nodeSig (Suc n) (adjB ?env) (prevB gA gB n) GraphB x))
              \<in> set (nodeDataB (stepAt gA gB (Suc n)))" by simp
      then have "nd_signature (snd (node_id x, nodeDataOf ?M (nodeSig (Suc n) (adjB ?env) (prevB gA gB n) GraphB x)))
                   \<in> ?R" by blast
      then show ?thesis by (simp add: 2(2))
    qed
  qed
  show "?R \<subseteq> set ?us"
  proof
    fix s assume "s \<in> ?R"
    then obtain d where d: "s = nd_signature d"
      "d \<in> snd ` set (nodeDataA (stepAt gA gB (Suc n))) \<or> d \<in> snd ` set (nodeDataB (stepAt gA gB (Suc n)))"
      by blast
    with nodeData_values [of ?env "counterAt gA gB n" "Suc n" "prevA gA gB n" "prevB gA gB n"]
    obtain x where "x \<in> set (sigsA ?env (Suc n) (prevA gA gB n)) \<union> set (sigsB ?env (Suc n) (prevB gA gB n))"
      "d = nodeDataOf ?M x"
      unfolding stepAt_Suc by blast
    with d(1) show "s \<in> set ?us" by (auto simp: set_uniqueSigs)
  qed
qed

lemma take_steps:
  "k \<le> Suc (nat maxK) \<Longrightarrow> take k (steps (runWLAlgorithm gA gB maxK)) = map (stepAt gA gB) [0..<k]"
  unfolding steps_runWLAlgorithm by (simp add: take_map take_upt del: upt_Suc)

lemma counter_is_minted_so_far:
  "counterAt gA gB n = length (allLabels (map (stepAt gA gB) [0..<Suc n]))"
  unfolding allLabels_upto by simp

subsection \<open>Signatures and relabelling\<close>

text \<open>
  Claim C2. At every refinement step \<open>k \<ge> 1\<close> of the returned sequence and for every
  node: the node's signature is \<^verbatim>\<open>(self,[n1,...])\<close> where \<open>self\<close> is the node's own label at
  step \<open>k - 1\<close> and the neighbour list holds, as a multiset, the step \<open>k - 1\<close> labels of
  its neighbours, sorted by the numeric value of the LabelId. The signatures of the step's
  mappings are the distinct signatures of all nodes of both graphs in ascending
  lexicographic string order, and the labels of the mappings, in that same order, are the
  next values of the global counter: the decimal strings following the number of LabelIds
  minted in the earlier steps. Each node's new label is the label its signature is
  mapped to.
\<close>

theorem C2_signatures_and_relabelling:
  assumes "0 < k" "k < length (steps (runWLAlgorithm gA gB maxK))"
  shows "(\<forall>g i. isNode gA gB g i \<longrightarrow>
            (\<exists>d. map_of (nodeDataFor (steps (runWLAlgorithm gA gB maxK) ! k) g) i = Some d \<and>
               nodeLabel (steps (runWLAlgorithm gA gB maxK) ! (k - 1)) g i = Some (self (nd_expandedSignature d)) \<and>
               image_mset Some (mset (neighbors (nd_expandedSignature d)))
                 = image_mset (nodeLabel (steps (runWLAlgorithm gA gB maxK) ! (k - 1)) g)
                     (mset (linkNeighbors (graphFor gA gB g) i)) \<and>
               sorted (map parseInt (neighbors (nd_expandedSignature d))) \<and>
               nd_signature d = ''('' @ self (nd_expandedSignature d) @ '',[''
                                  @ join '','' (neighbors (nd_expandedSignature d)) @ ''])'' \<and>
               (\<exists>m \<in> set (mappings (steps (runWLAlgorithm gA gB maxK) ! k)).
                  hm_signature m = nd_signature d \<and> hm_label m = nd_label d))) \<and>
         sorted (map hm_signature (mappings (steps (runWLAlgorithm gA gB maxK) ! k))) \<and>
         distinct (map hm_signature (mappings (steps (runWLAlgorithm gA gB maxK) ! k))) \<and>
         set (map hm_signature (mappings (steps (runWLAlgorithm gA gB maxK) ! k)))
           = nd_signature ` snd ` (set (nodeDataA (steps (runWLAlgorithm gA gB maxK) ! k))
                                   \<union> set (nodeDataB (steps (runWLAlgorithm gA gB maxK) ! k))) \<and>
         map hm_label (mappings (steps (runWLAlgorithm gA gB maxK) ! k))
           = map toString_nat
               [Suc (length (allLabels (take k (steps (runWLAlgorithm gA gB maxK)))))
                ..<Suc (length (allLabels (take k (steps (runWLAlgorithm gA gB maxK)))))
                   + length (mappings (steps (runWLAlgorithm gA gB maxK) ! k))]"
proof -
  from assms obtain n where n: "k = Suc n" by (cases k) simp_all
  from assms(2) have le: "Suc n \<le> nat maxK" "n \<le> nat maxK" by (simp_all add: length_steps n)
  have sk: "steps (runWLAlgorithm gA gB maxK) ! k = stepAt gA gB (Suc n)"
    and sp: "steps (runWLAlgorithm gA gB maxK) ! (k - 1) = stepAt gA gB n"
    by (simp_all add: n nth_steps le)
  have tk: "take k (steps (runWLAlgorithm gA gB maxK)) = map (stepAt gA gB) [0..<Suc n]"
    unfolding n by (rule take_steps) (use le in simp)
  have len: "length (mappings (stepAt gA gB (Suc n)))
             = length (uniqueSigs (envOf gA gB) (Suc n) (prevA gA gB n) (prevB gA gB n))"
    using arg_cong [OF signatures_step_Suc [of gA gB n], of length] by simp
  have lab: "map hm_label (mappings (stepAt gA gB (Suc n)))
           = map toString_nat
               [Suc (length (allLabels (map (stepAt gA gB) [0..<Suc n])))
                ..<Suc (length (allLabels (map (stepAt gA gB) [0..<Suc n])))
                   + length (mappings (stepAt gA gB (Suc n)))]"
    unfolding len counter_is_minted_so_far [symmetric] labels_step_Suc freshLabels_def ..
  show ?thesis
    unfolding sk sp tk signatures_step_Suc
    using node_signature_built [of gA gB _ _ n] lab
    by (simp only: sorted_uniqueSigs distinct_uniqueSigs pool_is_node_signatures simp_thms) blast
qed

theorem C2_signatures_and_relabelling_witness:
  "map hm_signature (mappings (steps (runWLAlgorithm multiGraph (oneNode ''c'' 1) 1) ! 1))
     = [''(1,[2,2])'', ''(1,[])'', ''(2,[1,1,2,2])''] \<and>
   sorted (map hm_signature (mappings (steps (runWLAlgorithm multiGraph (oneNode ''c'' 1) 1) ! 1))) \<and>
   map hm_label (mappings (steps (runWLAlgorithm multiGraph (oneNode ''c'' 1) 1) ! 1))
     = [''3'', ''4'', ''5'']"
proof -
  let ?ss = "steps (runWLAlgorithm multiGraph (oneNode ''c'' 1) 1)"
  have k: "(0::nat) < 1" by simp
  have l: "1 < length ?ss" by (simp add: length_steps)
  have sg: "map hm_signature (mappings (?ss ! 1)) = [''(1,[2,2])'', ''(1,[])'', ''(2,[1,1,2,2])'']"
    by code_simp
  have c: "length (allLabels (take 1 ?ss)) = 2" by code_simp
  have m: "length (mappings (?ss ! 1)) = 3" by code_simp
  have e: "map toString_nat [Suc 2..<Suc 2 + 3] = [''3'', ''4'', ''5'']" by code_simp
  from C2_signatures_and_relabelling [OF k l]
  have "sorted (map hm_signature (mappings (?ss ! 1)))"
    and "map hm_label (mappings (?ss ! 1))
           = map toString_nat [Suc (length (allLabels (take 1 ?ss)))
                               ..<Suc (length (allLabels (take 1 ?ss))) + length (mappings (?ss ! 1))]"
    by blast+
  then show ?thesis unfolding c m e using sg by simp
qed

section \<open>Label ids\<close>

subsection \<open>Node labels are labels of the step's mappings\<close>

lemma step_labels_minted:
  assumes "x \<in> set (sigsA (envOf gA gB) k pA) \<union> set (sigsB (envOf gA gB) k pB)"
  shows "getStr (ms_stepMapping (mintedOf (envOf gA gB) c k pA pB)) (sig_signature x)
         \<in> set (map hm_label (ms_mappingList (mintedOf (envOf gA gB) c k pA pB)))"
proof (cases k)
  case 0
  from assms obtain n t adj p where n: "n \<in> set (nodes gA) \<union> set (nodes gB)" "x = nodeSig 0 adj p t n"
    unfolding 0 sigsA_def sigsB_def by auto
  from n(1) have "originalLabel n \<in> set (sortedInitOf gA gB)" by (auto simp: set_sortedInitOf)
  then have "getStr (initLabelMap (envOf gA gB)) (originalLabel n)
             \<in> getStr (initLabelMap (envOf gA gB)) ` set (sortedInitOf gA gB)" by (rule imageI)
  then show ?thesis
    unfolding 0 n(2) step0_label [OF n(1)]
    using mintedOf_0 [of "envOf gA gB" c pA pB] distinct_sortedInitOf [of gA gB]
    by (simp add: o_def del: env_fields(2))
next
  case (Suc m)
  let ?us = "uniqueSigs (envOf gA gB) k pA pB"
  from assms have "sig_signature x \<in> set ?us" by (auto simp: set_uniqueSigs)
  from label_fresh [OF _ this, of c]
  have "getStr (ms_stepMapping (mintedOf (envOf gA gB) c k pA pB)) (sig_signature x)
        \<in> set (freshLabels c (length ?us))" by (simp add: Suc)
  moreover have "map hm_label (ms_mappingList (mintedOf (envOf gA gB) c k pA pB)) = freshLabels c (length ?us)"
    by (simp add: mintedOf_pos Suc o_def)
  ultimately show ?thesis by simp
qed

lemma node_labels_are_minted:
  "nd_label ` snd ` (set (nodeDataA (stepAt gA gB k)) \<union> set (nodeDataB (stepAt gA gB k)))
   \<subseteq> set (map hm_label (mappings (stepAt gA gB k)))"
proof -
  obtain c pA pB where s: "stepAt gA gB k = step (processStep (envOf gA gB) c k pA pB)"
    using stepAt_processStep by blast
  let ?M = "ms_stepMapping (mintedOf (envOf gA gB) c k pA pB)"
  show ?thesis
  proof
    fix l assume "l \<in> nd_label ` snd ` (set (nodeDataA (stepAt gA gB k)) \<union> set (nodeDataB (stepAt gA gB k)))"
    then obtain d where d: "l = nd_label d"
      "d \<in> snd ` set (nodeDataA (stepAt gA gB k)) \<or> d \<in> snd ` set (nodeDataB (stepAt gA gB k))"
      by blast
    with nodeData_values [of "envOf gA gB" c k pA pB]
    obtain x where x: "x \<in> set (sigsA (envOf gA gB) k pA) \<union> set (sigsB (envOf gA gB) k pB)"
      "d = nodeDataOf ?M x"
      unfolding s by blast
    from step_labels_minted [OF x(1), of c] show "l \<in> set (map hm_label (mappings (stepAt gA gB k)))"
      unfolding s mappings_step d(1) x(2) by simp
  qed
qed

subsection \<open>Label ids are never reused\<close>

text \<open>
  Claim C6. \<open>allLabels\<close> lists the LabelIds of the mappings of all steps of one call, in
  the order they are minted. No value occurs twice in it: within a step no LabelId is
  given to two signatures, and a LabelId minted at one step is not minted again at a
  later step. The list is the decimal strings of 1, 2, 3, ... without a gap, and the
  labels the nodes carry in a step are among the labels of that step's own mappings, so a
  LabelId of one step is not given to any node at another step.
\<close>

theorem C6_label_ids_never_reused:
  "distinct (allLabels (steps (runWLAlgorithm gA gB maxK))) \<and>
   allLabels (steps (runWLAlgorithm gA gB maxK))
     = map toString_nat [1..<Suc (length (allLabels (steps (runWLAlgorithm gA gB maxK))))] \<and>
   (\<forall>s \<in> set (steps (runWLAlgorithm gA gB maxK)).
      nd_label ` snd ` (set (nodeDataA s) \<union> set (nodeDataB s)) \<subseteq> set (map hm_label (mappings s)))"
proof -
  have "allLabels (steps (runWLAlgorithm gA gB maxK)) = freshLabels 0 (counterAt gA gB (nat maxK))"
    unfolding steps_runWLAlgorithm by (rule allLabels_upto)
  then have "distinct (allLabels (steps (runWLAlgorithm gA gB maxK))) \<and>
   allLabels (steps (runWLAlgorithm gA gB maxK))
     = map toString_nat [1..<Suc (length (allLabels (steps (runWLAlgorithm gA gB maxK))))]"
    by (simp add: distinct_freshLabels) (simp add: freshLabels_def)
  moreover have "nd_label ` snd ` (set (nodeDataA s) \<union> set (nodeDataB s)) \<subseteq> set (map hm_label (mappings s))"
    if "s \<in> set (steps (runWLAlgorithm gA gB maxK))" for s
  proof -
    from that obtain k where "s = stepAt gA gB k" by (rule in_steps_cases)
    then show ?thesis using node_labels_are_minted [of gA gB k] by simp
  qed
  ultimately show ?thesis by blast
qed

theorem C6_label_ids_never_reused_witness:
  "allLabels (steps (runWLAlgorithm multiGraph (oneNode ''c'' 1) 1)) = [''1'', ''2'', ''3'', ''4'', ''5''] \<and>
   distinct (allLabels (steps (runWLAlgorithm multiGraph (oneNode ''c'' 1) 1))) \<and>
   nd_label ` snd ` (set (nodeDataA (steps (runWLAlgorithm multiGraph (oneNode ''c'' 1) 1) ! 1))
                     \<union> set (nodeDataB (steps (runWLAlgorithm multiGraph (oneNode ''c'' 1) 1) ! 1)))
     \<subseteq> set (map hm_label (mappings (steps (runWLAlgorithm multiGraph (oneNode ''c'' 1) 1) ! 1)))"
proof -
  let ?ss = "steps (runWLAlgorithm multiGraph (oneNode ''c'' 1) 1)"
  have m: "?ss ! 1 \<in> set ?ss" by (rule nth_mem) (simp add: length_steps)
  have a: "allLabels ?ss = [''1'', ''2'', ''3'', ''4'', ''5'']" by code_simp
  from C6_label_ids_never_reused [of multiGraph "oneNode ''c'' 1" 1] m a show ?thesis by blast
qed

section \<open>Permutations of the input\<close>

subsection \<open>Sorting, maps and histograms under permutation\<close>

lemma sort_key_mset_inj:
  assumes "mset xs = mset ys" "inj_on f (set xs)"
  shows "sort_key f xs = sort_key f ys"
proof (rule properties_for_sort_key)
  show "mset (sort_key f ys) = mset xs" using assms(1) by simp
  show "sorted (map f (sort_key f ys))" by simp
  fix k assume "k \<in> set (sort_key f ys)"
  then have k: "k \<in> set xs" using mset_eq_setD [OF assms(1)] by simp
  have eq: "filter (\<lambda>x. f k = f x) zs = filter ((=) k) zs" if "set zs = set xs" for zs
    by (rule filter_cong [OF refl]) (use that k assms(2) in \<open>auto simp: inj_on_def\<close>)
  have "filter ((=) k) (sort_key f ys) = replicate (count (mset (sort_key f ys)) k) k"
    by (rule replicate_count_mset_eq_filter_eq [symmetric])
  also have "\<dots> = replicate (count (mset xs) k) k" using assms(1) by simp
  also have "\<dots> = filter ((=) k) xs" by (rule replicate_count_mset_eq_filter_eq)
  finally show "filter (\<lambda>x. f k = f x) (sort_key f ys) = filter (\<lambda>x. f k = f x) xs"
    using eq [of xs] eq [of "sort_key f ys"] mset_eq_setD [OF assms(1)] by simp
qed

lemma parseInt_inj_on_labels: "set xs \<subseteq> range toString_nat \<Longrightarrow> inj_on parseInt (set xs)"
  by (rule inj_onI) (metis imageE parseInt_toString_nat subsetD)

lemma map_of_mset_cong:
  assumes "distinct (map fst xs)" "mset xs = mset ys"
  shows "map_of xs = map_of ys"
proof -
  from assms(2) have "mset (map fst xs) = mset (map fst ys)" by simp
  with assms(1) have "distinct (map fst ys)" using mset_eq_imp_distinct_iff by blast
  with assms(1) mset_eq_setD [OF assms(2)] show ?thesis by (simp add: map_of_inject_set)
qed

lemma map_of_fold_update_perm:
  assumes "distinct (map f xs)" "mset xs = mset ys"
  shows "map_of (fold (\<lambda>i m. AList.update (f i) (g i) m) xs [])
         = map_of (fold (\<lambda>i m. AList.update (f i) (g i) m) ys [])"
proof -
  from assms(2) have "mset (map f xs) = mset (map f ys)" by simp
  with assms(1) have d: "distinct (map f ys)" using mset_eq_imp_distinct_iff by blast
  have "map_of (map (\<lambda>i. (f i, g i)) xs) = map_of (map (\<lambda>i. (f i, g i)) ys)"
    by (rule map_of_mset_cong) (use assms in \<open>simp_all add: o_def\<close>)
  then show ?thesis
    by (simp only: map_of_fold_update_distinct [OF assms(1)] map_of_fold_update_distinct [OF d])
qed

lemma map_of_histogram_perm:
  assumes "mset ls = mset ls'"
  shows "map_of (histogram ls) = map_of (histogram ls')"
proof
  fix l
  from assms have "count_list ls l = count_list ls' l" by (metis count_mset)
  with mset_eq_setD [OF assms] show "map_of (histogram ls) l = map_of (histogram ls') l"
    by (simp add: map_of_histogram)
qed

lemma Object_keys_histogram_perm:
  assumes "mset ls = mset ls'" "set ls \<subseteq> range toString_nat"
  shows "Object_keys (histogram ls) = Object_keys (histogram ls')"
proof -
  have s: "set (map fst (histogram ls)) = set (map fst (histogram ls'))"
    using mset_eq_setD [OF assms(1)] by (simp add: keys_histogram)
  then have "mset (map fst (histogram ls)) = mset (map fst (histogram ls'))"
    using distinct_histogram set_eq_iff_mset_eq_distinct by blast
  moreover have "inj_on parseInt (set (map fst (histogram ls)))"
    by (rule parseInt_inj_on_labels) (use assms(2) in \<open>simp add: keys_histogram\<close>)
  ultimately show ?thesis unfolding Object_keys_def by (rule sort_key_mset_inj)
qed

lemma sum_list_mset_perm:
  fixes f :: "'a \<Rightarrow> 'b multiset"
  assumes "mset xs = mset ys"
  shows "sum_list (map f xs) = sum_list (map f ys)"
proof -
  have "sum_list (map f xs) = sum_mset (image_mset f (mset xs))" by (simp flip: sum_mset_sum_list)
  also have "\<dots> = sum_mset (image_mset f (mset ys))" by (simp add: assms)
  also have "\<dots> = sum_list (map f ys)" by (simp flip: sum_mset_sum_list)
  finally show ?thesis .
qed

lemma mset_linkNeighbors_perm:
  assumes "set (nodes g') = set (nodes g)" "mset (links g') = mset (links g)"
  shows "mset (linkNeighbors g' i) = mset (linkNeighbors g i)"
proof -
  have k: "knownLink g' = knownLink g" by (simp add: knownLink_def fun_eq_iff assms(1))
  show ?thesis unfolding linkNeighbors_def mset_concat map_map k
    by (rule sum_list_mset_perm) (rule assms(2))
qed

lemma sortedInitOf_perm:
  assumes "set (nodes gA') = set (nodes gA)" "set (nodes gB') = set (nodes gB)"
  shows "sortedInitOf gA' gB' = sortedInitOf gA gB"
  by (rule sorted_distinct_set_unique)
    (simp_all add: sorted_sortedInitOf distinct_sortedInitOf set_sortedInitOf assms)

subsection \<open>A step under permutation\<close>

lemma getStr_cong: "map_of p' = map_of p \<Longrightarrow> getStr p' = getStr p"
  by (simp add: getStr_def fun_eq_iff)

lemma nodeSig_perm:
  fixes g g' :: GraphData
  assumes nodes: "set (nodes g') = set (nodes g)" and links: "mset (links g') = mset (links g)"
    and prev: "map_of p' = map_of p"
    and canon: "\<And>j. j \<in> node_id ` set (nodes g) \<Longrightarrow> getStr p j \<in> range toString_nat"
    and x: "x \<in> set (nodes g)"
  shows "nodeSig k (getAdjacencyList (nodes g') (links g')) p' t x
         = nodeSig k (getAdjacencyList (nodes g) (links g)) p t x"
proof (cases k)
  case 0
  show ?thesis unfolding 0 by (simp add: nodeSig_def)
next
  case (Suc n)
  let ?i = "node_id x"
  have a': "map_of (getAdjacencyList (nodes g') (links g')) ?i = Some (linkNeighbors g' ?i)"
    using x nodes by (simp add: map_of_getAdjacencyList)
  have a: "map_of (getAdjacencyList (nodes g) (links g)) ?i = Some (linkNeighbors g ?i)"
    using x by (simp add: map_of_getAdjacencyList)
  have m: "mset (map (getStr p) (linkNeighbors g' ?i)) = mset (map (getStr p) (linkNeighbors g ?i))"
    by (simp add: mset_linkNeighbors_perm [OF nodes links])
  have "set (map (getStr p) (linkNeighbors g' ?i)) \<subseteq> range toString_nat"
    using linkNeighbors_are_nodes [of g' ?i] canon nodes by auto
  then have "inj_on parseInt (set (map (getStr p) (linkNeighbors g' ?i)))"
    by (rule parseInt_inj_on_labels)
  with m have "sort_key parseInt (map (getStr p) (linkNeighbors g' ?i))
               = sort_key parseInt (map (getStr p) (linkNeighbors g ?i))"
    by (rule sort_key_mset_inj)
  then show ?thesis
    unfolding Suc nodeSig_def Let_def a a' getStr_cong [OF prev] by simp
qed

lemma map_nodeSig_perm:
  fixes g g' :: GraphData
  assumes "mset (nodes g') = mset (nodes g)" "mset (links g') = mset (links g)"
    and "map_of p' = map_of p"
    and "\<And>j. j \<in> node_id ` set (nodes g) \<Longrightarrow> getStr p j \<in> range toString_nat"
  shows "mset (map (nodeSig k (getAdjacencyList (nodes g') (links g')) p' t) (nodes g'))
         = mset (map (nodeSig k (getAdjacencyList (nodes g) (links g)) p t) (nodes g))"
proof -
  have s: "set (nodes g') = set (nodes g)" by (rule mset_eq_setD [OF assms(1)])
  have "map (nodeSig k (getAdjacencyList (nodes g') (links g')) p' t) (nodes g')
        = map (nodeSig k (getAdjacencyList (nodes g) (links g)) p t) (nodes g')"
    by (rule map_cong [OF refl]) (rule nodeSig_perm [OF s assms(2,3,4)], simp_all add: s)
  then have "mset (map (nodeSig k (getAdjacencyList (nodes g') (links g')) p' t) (nodes g'))
        = mset (map (nodeSig k (getAdjacencyList (nodes g) (links g)) p t) (nodes g'))"
    by (rule arg_cong)
  also have "\<dots> = mset (map (nodeSig k (getAdjacencyList (nodes g) (links g)) p t) (nodes g))"
    by (simp add: assms(1))
  finally show ?thesis .
qed

lemma step_fields:
  "step_k (step (processStep env c k pA pB)) = k"
  "labelCountsA (step (processStep env c k pA pB))
     = histogram (map (\<lambda>i. getStr (ms_stepMapping (mintedOf env c k pA pB)) (sig_signature i)) (sigsA env k pA))"
  "labelCountsB (step (processStep env c k pA pB))
     = histogram (map (\<lambda>i. getStr (ms_stepMapping (mintedOf env c k pA pB)) (sig_signature i)) (sigsB env k pB))"
  "uniqueLabels (step (processStep env c k pA pB))
     = sort_key parseInt (newSet (Object_keys (labelCountsA (step (processStep env c k pA pB)))
                                  @ Object_keys (labelCountsB (step (processStep env c k pA pB)))))"
  "isIsomorphicCandidate (step (processStep env c k pA pB))
     = areCountsEqual (labelCountsA (step (processStep env c k pA pB))) (labelCountsB (step (processStep env c k pA pB)))"
  by (simp_all add: processStep_mapped Let_def)

lemma step_labels_canonical:
  assumes "x \<in> set (sigsA (envOf gA gB) k pA) \<union> set (sigsB (envOf gA gB) k pB)"
  shows "getStr (ms_stepMapping (mintedOf (envOf gA gB) c k pA pB)) (sig_signature x) \<in> range toString_nat"
proof (cases k)
  case 0
  let ?vs = "sortedInitOf gA gB"
  from assms obtain n t adj p where n: "n \<in> set (nodes gA) \<union> set (nodes gB)" "x = nodeSig 0 adj p t n"
    unfolding 0 sigsA_def sigsB_def by auto
  have "getStr (zip ?vs (freshLabels 0 (length ?vs))) (originalLabel n) \<in> set (freshLabels 0 (length ?vs))"
    by (rule getStr_zip_mem) (use n(1) in \<open>auto simp: distinct_sortedInitOf set_sortedInitOf\<close>)
  with freshLabels_range show ?thesis
    unfolding 0 n(2) step0_label [OF n(1)] by auto
next
  case (Suc m)
  from assms have "sig_signature x \<in> set (uniqueSigs (envOf gA gB) k pA pB)"
    by (auto simp: set_uniqueSigs)
  from label_fresh [OF _ this, of c] freshLabels_range show ?thesis by (auto simp: Suc)
qed

lemma areCountsEqual_cong:
  assumes "Object_keys c1' = Object_keys c1" "Object_keys c2' = Object_keys c2"
    and "map_of c1' = map_of c1" "map_of c2' = map_of c2"
  shows "areCountsEqual c1' c2' = areCountsEqual c1 c2"
  by (simp add: areCountsEqual_def assms)

lemma processStep_perm:
  fixes gA gB gA' gB' :: GraphData
  assumes wf: "wellFormed gA" "wellFormed gB"
    and re: "reordered gA' gA" "reordered gB' gB"
    and pA: "map_of pA' = map_of pA" and pB: "map_of pB' = map_of pB"
    and cA: "\<And>j. j \<in> node_id ` set (nodes gA) \<Longrightarrow> getStr pA j \<in> range toString_nat"
    and cB: "\<And>j. j \<in> node_id ` set (nodes gB) \<Longrightarrow> getStr pB j \<in> range toString_nat"
  shows "observe (step (processStep (envOf gA' gB') c k pA' pB'))
           = observe (step (processStep (envOf gA gB) c k pA pB)) \<and>
         map_of (nextLabelsA (processStep (envOf gA' gB') c k pA' pB'))
           = map_of (nextLabelsA (processStep (envOf gA gB) c k pA pB)) \<and>
         map_of (nextLabelsB (processStep (envOf gA' gB') c k pA' pB'))
           = map_of (nextLabelsB (processStep (envOf gA gB) c k pA pB)) \<and>
         globalLabelCounter (processStep (envOf gA' gB') c k pA' pB')
           = globalLabelCounter (processStep (envOf gA gB) c k pA pB)"
proof -
  let ?e' = "envOf gA' gB'" and ?e = "envOf gA gB"
  let ?r' = "processStep ?e' c k pA' pB'" and ?r = "processStep ?e c k pA pB"
  let ?M = "ms_stepMapping (mintedOf ?e c k pA pB)"
  from re have nA: "mset (nodes gA') = mset (nodes gA)" and lA: "mset (links gA') = mset (links gA)"
    and nB: "mset (nodes gB') = mset (nodes gB)" and lB: "mset (links gB') = mset (links gB)"
    by (simp_all add: reordered_def)
  have sA: "mset (sigsA ?e' k pA') = mset (sigsA ?e k pA)"
    unfolding sigsA_def env_fields nodes_envOf by (rule map_nodeSig_perm [OF nA lA pA cA])
  have sB: "mset (sigsB ?e' k pB') = mset (sigsB ?e k pB)"
    unfolding sigsB_def env_fields nodes_envOf by (rule map_nodeSig_perm [OF nB lB pB cB])
  have us: "uniqueSigs ?e' k pA' pB' = uniqueSigs ?e k pA pB"
    by (rule sorted_distinct_set_unique)
      (simp_all add: sorted_uniqueSigs distinct_uniqueSigs set_uniqueSigs
        mset_eq_setD [OF sA] mset_eq_setD [OF sB])
  have si: "sortedInitOf gA' gB' = sortedInitOf gA gB"
    by (rule sortedInitOf_perm) (rule mset_eq_setD [OF nA], rule mset_eq_setD [OF nB])
  have mi: "mintedOf ?e' c k pA' pB' = mintedOf ?e c k pA pB"
    by (simp add: mintedOf_def us si Let_def)
  have dA: "distinct (map sig_id (sigsA ?e' k pA'))"
    using wf(1) nA mset_eq_imp_distinct_iff [of "map node_id (nodes gA')" "map node_id (nodes gA)"]
    by (simp add: sigsA_def o_def sig_id_nodeSig wellFormed_def)
  have dB: "distinct (map sig_id (sigsB ?e' k pB'))"
    using wf(2) nB mset_eq_imp_distinct_iff [of "map node_id (nodes gB')" "map node_id (nodes gB)"]
    by (simp add: sigsB_def o_def sig_id_nodeSig wellFormed_def)
  have ndA: "map_of (nodeDataA (step ?r')) = map_of (nodeDataA (step ?r))"
    unfolding nodeData_eq mi by (rule map_of_fold_update_perm [OF dA sA])
  have ndB: "map_of (nodeDataB (step ?r')) = map_of (nodeDataB (step ?r))"
    unfolding nodeData_eq mi by (rule map_of_fold_update_perm [OF dB sB])
  have nlA: "map_of (nextLabelsA ?r') = map_of (nextLabelsA ?r)"
    unfolding nextLabels_eq mi by (rule map_of_fold_update_perm [OF dA sA])
  have nlB: "map_of (nextLabelsB ?r') = map_of (nextLabelsB ?r)"
    unfolding nextLabels_eq mi by (rule map_of_fold_update_perm [OF dB sB])
  have lsA: "mset (map (\<lambda>i. getStr ?M (sig_signature i)) (sigsA ?e' k pA'))
           = mset (map (\<lambda>i. getStr ?M (sig_signature i)) (sigsA ?e k pA))"
    by (simp add: sA)
  have lsB: "mset (map (\<lambda>i. getStr ?M (sig_signature i)) (sigsB ?e' k pB'))
           = mset (map (\<lambda>i. getStr ?M (sig_signature i)) (sigsB ?e k pB))"
    by (simp add: sB)
  have canA: "set (map (\<lambda>i. getStr ?M (sig_signature i)) (sigsA ?e' k pA')) \<subseteq> range toString_nat"
    unfolding mset_eq_setD [OF lsA] using step_labels_canonical [of _ gA gB k pA pB c] by auto
  have canB: "set (map (\<lambda>i. getStr ?M (sig_signature i)) (sigsB ?e' k pB')) \<subseteq> range toString_nat"
    unfolding mset_eq_setD [OF lsB] using step_labels_canonical [of _ gA gB k pA pB c] by auto
  have cmA: "map_of (labelCountsA (step ?r')) = map_of (labelCountsA (step ?r))"
    unfolding step_fields mi by (rule map_of_histogram_perm [OF lsA])
  have cmB: "map_of (labelCountsB (step ?r')) = map_of (labelCountsB (step ?r))"
    unfolding step_fields mi by (rule map_of_histogram_perm [OF lsB])
  have okA: "Object_keys (labelCountsA (step ?r')) = Object_keys (labelCountsA (step ?r))"
    unfolding step_fields mi by (rule Object_keys_histogram_perm [OF lsA canA])
  have okB: "Object_keys (labelCountsB (step ?r')) = Object_keys (labelCountsB (step ?r))"
    unfolding step_fields mi by (rule Object_keys_histogram_perm [OF lsB canB])
  have ul: "uniqueLabels (step ?r') = uniqueLabels (step ?r)"
    unfolding step_fields(4) okA okB ..
  have ic: "isIsomorphicCandidate (step ?r') = isIsomorphicCandidate (step ?r)"
    unfolding step_fields(5) by (rule areCountsEqual_cong [OF okA okB cmA cmB])
  have mp: "mappings (step ?r') = mappings (step ?r)" "globalLabelCounter ?r' = globalLabelCounter ?r"
    unfolding mappings_step mi by (rule refl)+
  have "observe (step ?r') = observe (step ?r)"
    unfolding observe_def step_fields(1) ndA ndB cmA cmB okA okB ul ic mp ..
  with nlA nlB mp(2) show ?thesis by blast
qed

subsection \<open>The whole run under permutation\<close>

lemma initedOf_perm:
  assumes "set (nodes gA') = set (nodes gA)" "set (nodes gB') = set (nodes gB)"
  shows "initedOf gA' gB' = initedOf gA gB"
  by (simp add: initedOf_eq sortedInitOf_perm [OF assms])

lemma applyInitialLabels_perm:
  assumes "distinct (map node_id ns)" "mset ns' = mset ns"
  shows "map_of (applyInitialLabels ilm ns') = map_of (applyInitialLabels ilm ns)"
  unfolding applyInitialLabels_def
  by (rule map_of_fold_update_perm [symmetric]) (rule assms(1), rule assms(2) [symmetric])

lemma state_perm:
  fixes gA gB gA' gB' :: GraphData
  assumes wf: "wellFormed gA" "wellFormed gB"
    and re: "reordered gA' gA" "reordered gB' gB"
  shows "map_of (prevA gA' gB' n) = map_of (prevA gA gB n) \<and>
         map_of (prevB gA' gB' n) = map_of (prevB gA gB n) \<and>
         counterAt gA' gB' n = counterAt gA gB n"
proof (induction n)
  case 0
  from re have nA: "mset (nodes gA') = mset (nodes gA)" and nB: "mset (nodes gB') = mset (nodes gB)"
    by (simp_all add: reordered_def)
  have ii: "initedOf gA' gB' = initedOf gA gB"
    by (rule initedOf_perm) (rule mset_eq_setD [OF nA], rule mset_eq_setD [OF nB])
  have si: "sortedInitOf gA' gB' = sortedInitOf gA gB"
    by (rule sortedInitOf_perm) (rule mset_eq_setD [OF nA], rule mset_eq_setD [OF nB])
  show ?case unfolding state_0 ii si
    using applyInitialLabels_perm [OF wf(1) [unfolded wellFormed_def] nA]
      applyInitialLabels_perm [OF wf(2) [unfolded wellFormed_def] nB] by simp
next
  case (Suc n)
  have cA: "getStr (prevA gA gB n) j \<in> range toString_nat" if "j \<in> node_id ` set (nodes gA)" for j
    using prev_label_canonical [OF that, of gB n] by auto
  have cB: "getStr (prevB gA gB n) j \<in> range toString_nat" if "j \<in> node_id ` set (nodes gB)" for j
    using prev_label_canonical_B [OF that, of gA n] by auto
  from Suc have c: "counterAt gA' gB' n = counterAt gA gB n" by simp
  from processStep_perm [OF wf re _ _ cA cB, of "prevA gA' gB' n" "prevB gA' gB' n" "counterAt gA gB n" "Suc n"] Suc
  show ?case unfolding state_Suc c by simp
qed

lemma stepAt_perm:
  fixes gA gB gA' gB' :: GraphData
  assumes wf: "wellFormed gA" "wellFormed gB"
    and re: "reordered gA' gA" "reordered gB' gB"
  shows "observe (stepAt gA' gB' k) = observe (stepAt gA gB k)"
proof -
  have cA: "getStr (prevA gA gB n) j \<in> range toString_nat" if "j \<in> node_id ` set (nodes gA)" for j n
    using prev_label_canonical [OF that, of gB n] by auto
  have cB: "getStr (prevB gA gB n) j \<in> range toString_nat" if "j \<in> node_id ` set (nodes gB)" for j n
    using prev_label_canonical_B [OF that, of gA n] by auto
  show ?thesis
  proof (cases k)
    case 0
    from state_perm [OF wf re, of 0] have c: "counterAt gA' gB' 0 = counterAt gA gB 0"
      and a: "map_of (prevA gA' gB' 0) = map_of (prevA gA gB 0)"
      and b: "map_of (prevB gA' gB' 0) = map_of (prevB gA gB 0)" by simp_all
    from processStep_perm [OF wf re a b cA cB, of "counterAt gA gB 0" 0]
    show ?thesis unfolding 0 stepAt_0 c by simp
  next
    case (Suc n)
    from state_perm [OF wf re, of n] have c: "counterAt gA' gB' n = counterAt gA gB n"
      and a: "map_of (prevA gA' gB' n) = map_of (prevA gA gB n)"
      and b: "map_of (prevB gA' gB' n) = map_of (prevB gA gB n)" by simp_all
    from processStep_perm [OF wf re a b cA cB, of "counterAt gA gB n" "Suc n"]
    show ?thesis unfolding Suc stepAt_Suc c by simp
  qed
qed

subsection \<open>Determinism and independence of the input order\<close>




end
